theory Spec2Isabelle
  imports Main "HOL-Library.Word" "HOL-Library.Stream" "HOL-Library.Sublist"
begin

unbundle bit_operations_syntax

section \<open>The fuzzer's data\<close>

text \<open>
  A shallow embedding of \<^verbatim>\<open>zydis_fuzzer.cc\<close>. Bytes (\<^verbatim>\<open>uint8_t\<close>) are 8-bit words,
  \<^verbatim>\<open>uint32_t\<close> values are 32-bit words, \<^verbatim>\<open>int\<close> variables are integers whose values
  stay far below \<open>2 ^ 31\<close> (shown where it matters).
\<close>

type_synonym byte = "8 word"

text \<open>
  The C library's \<^verbatim>\<open>rand()\<close> is a hidden generator that \<^verbatim>\<open>srand\<close> seeds once. Its
  state is modelled by what can be observed of it: the sequence of the results of all
  future calls. Each result is a non-negative \<^verbatim>\<open>int\<close> (at most \<^verbatim>\<open>RAND_MAX\<close>), hence
  a natural number; a call takes the head of the sequence and leaves its tail.
\<close>

type_synonym rand_source = "nat stream"

datatype error =
    Out_Of_Bounds_Write nat
  | Out_Of_Bounds_Read nat
  | Uninitialised_Read
  | Null_Read

text \<open>
  The state in which the generator functions run: the destination buffer, the random
  source, and a log of every store done through the buffer pointer (index and value,
  oldest first). The log is not program data; it records which bytes were written.
\<close>

record gen_state =
  buf :: "byte list"
  rng :: rand_source
  stores :: "(nat \<times> byte) list"

definition rand :: "gen_state \<Rightarrow> nat \<times> gen_state" where
  "rand s = (shd (rng s), s\<lparr>rng := stl (rng s)\<rparr>)"

text \<open>
  A store \<^verbatim>\<open>buf[i] = v\<close>. The buffer is a C array: a store outside of it is a memory
  error and the model stops there.
\<close>

definition store :: "nat \<Rightarrow> byte \<Rightarrow> gen_state \<Rightarrow> error + gen_state" where
  "store i v s =
     (if i < length (buf s)
      then Inr (s\<lparr>buf := (buf s)[i := v], stores := stores s @ [(i, v)]\<rparr>)
      else Inl (Out_Of_Bounds_Write i))"

section \<open>The prefix byte generator\<close>

definition prefix_collection :: "byte list" where
  "prefix_collection =
     [0x66, 0x67, 0xF2, 0xF3,
      0x66, 0x67, 0xF2, 0xF3,
      0x66, 0x67, 0xF2, 0xF3,
      0x66, 0x67, 0xF2, 0xF3,

      0x26, 0x2E, 0x36, 0x3E,
      0x26, 0x2E, 0x36, 0x3E,
      0x64, 0x65, 0x66, 0xF0,

      0x40, 0x41, 0x42, 0x43,
      0x44, 0x45, 0x46, 0x47,
      0x48, 0x49, 0x4A, 0x4B,
      0x4C, 0x4D, 0x4E, 0x4F]"

text \<open>
  The loop \<^verbatim>\<open>for( i=0; i<bytecount; i++ ) dst[i] = prefix_collection[ rand() % m ]\<close>,
  where \<^verbatim>\<open>dst\<close> points \<open>dst\<close> bytes into the buffer. The source has the loop twice,
  once for each modulus.
\<close>

function prefix_loop :: "nat \<Rightarrow> nat \<Rightarrow> int \<Rightarrow> int \<Rightarrow> gen_state \<Rightarrow> error + gen_state" where
  "prefix_loop m dst i bytecount s =
     (if i < bytecount then
        (let (r, s1) = rand s in
         case store (dst + nat i) (prefix_collection ! (r mod m)) s1 of
           Inl e \<Rightarrow> Inl e
         | Inr s2 \<Rightarrow> prefix_loop m dst (i + 1) bytecount s2)
      else Inr s)"
  by pat_completeness auto
termination
  by (relation "measure (\<lambda>(m, dst, i, bytecount, s). nat (bytecount - i))") auto

declare prefix_loop.simps [simp del]

definition generate_prefix_bytes :: "nat \<Rightarrow> int \<Rightarrow> bool \<Rightarrow> gen_state \<Rightarrow> error + gen_state" where
  "generate_prefix_bytes dst bytecount is_64bit s =
     (if is_64bit
      then prefix_loop (length prefix_collection) dst 0 bytecount s
      else prefix_loop (length prefix_collection - 16) dst 0 bytecount s)"

section \<open>The random instruction encoder\<close>

text \<open>The prefix count \<^verbatim>\<open>(r2*r2*r2) >> 20\<close> of a draw \<^verbatim>\<open>r2 = rand() % 254\<close>.\<close>

definition num_prefixes_of :: "int \<Rightarrow> int" where
  "num_prefixes_of r2 = drop_bit 20 (r2 * r2 * r2)"

text \<open>\<^verbatim>\<open>*bufptr++ = v\<close>: a store at the cursor, which then moves on by one.\<close>

definition emit :: "byte \<Rightarrow> nat \<times> gen_state \<Rightarrow> error + nat \<times> gen_state" where
  "emit v c =
     (case store (fst c) v (snd c) of
        Inl e \<Rightarrow> Inl e
      | Inr s \<Rightarrow> Inr (fst c + 1, s))"

text \<open>Sequencing of steps that may fail: the first failure ends the run.\<close>

definition and_then :: "error + 'a \<Rightarrow> ('a \<Rightarrow> error + 'b) \<Rightarrow> error + 'b" where
  "and_then m f = (case m of Inl e \<Rightarrow> Inl e | Inr x \<Rightarrow> f x)"

text \<open>
  The biased fields: \<^verbatim>\<open>rv & ((rv & 0x300) ? m : 0xFF)\<close> and
  \<^verbatim>\<open>rv | ((rv & 0x300) ? 0 : 0x78)\<close>. \<^verbatim>\<open>rv\<close> is a \<^verbatim>\<open>uint32_t\<close> holding a result of
  \<^verbatim>\<open>rand()\<close>; the assignment to a \<^verbatim>\<open>uint8_t\<close> keeps its low eight bits.
\<close>

definition masked_field :: "32 word \<Rightarrow> 32 word \<Rightarrow> 32 word" where
  "masked_field m rv = rv AND (if rv AND 0x300 \<noteq> 0 then m else 0xFF)"

definition forced_field :: "32 word \<Rightarrow> 32 word" where
  "forced_field rv = rv OR (if rv AND 0x300 \<noteq> 0 then 0 else 0x78)"

text \<open>
  The body of \<^verbatim>\<open>switch( rand() % 50 )\<close>, as a function of the value switched on and
  of the cursor \<^verbatim>\<open>bufptr\<close>. It returns the cursor after the escape sequence.
\<close>

definition escape_case :: "nat \<Rightarrow> nat \<times> gen_state \<Rightarrow> error + nat \<times> gen_state" where
  "escape_case sel c =
     (if sel = 0 then Inr c
      else if sel = 1 then and_then (emit 0x0F c) (emit 0x0F)
      else if sel = 2 then and_then (emit 0x0F c) (emit 0x38)
      else if sel = 3 then and_then (emit 0x0F c) (emit 0x3A)
      else if sel = 4 then emit 0x0F c
      else if sel \<in> {5, 6, 7, 8, 9, 10} then
        (let (r, s1) = rand (snd c); rv = word_of_nat r in
         and_then (emit 0x62 (fst c, s1)) (\<lambda>c1.
         and_then (emit (ucast (masked_field 0xF7 rv)) c1) (\<lambda>c2.
         let (r', s2) = rand (snd c2); rv' = word_of_nat r' in
         emit (ucast (forced_field rv')) (fst c2, s2))))
      else if sel \<in> {11, 12, 13, 14, 15, 16} then
        (let (r, s1) = rand (snd c); rv = word_of_nat r in
         and_then (emit 0xC4 (fst c, s1)) (\<lambda>c1.
         and_then (emit (ucast (masked_field 0xE3 rv)) c1) (\<lambda>c2.
         let (r', s2) = rand (snd c2); rv' = word_of_nat r' in
         emit (ucast (forced_field rv')) (fst c2, s2))))
      else if sel \<in> {17, 18, 19, 20, 21, 22} then
        (let (r, s1) = rand (snd c); rv = word_of_nat r in
         and_then (emit 0xC5 (fst c, s1)) (emit (ucast (forced_field rv))))
      else
        (let (r, s1) = rand (snd c); rv = word_of_nat r in
         and_then (emit 0x8F (fst c, s1)) (\<lambda>c1.
         and_then (emit (ucast (masked_field 0xE3 rv XOR 8)) c1) (\<lambda>c2.
         let (r', s2) = rand (snd c2); rv' = word_of_nat r' in
         emit (ucast (forced_field rv')) (fst c2, s2)))))"

definition escape_sequence :: "nat \<times> gen_state \<Rightarrow> error + nat \<times> gen_state" where
  "escape_sequence c =
     (let (r, s1) = rand (snd c) in escape_case (r mod 50) (fst c, s1))"

text \<open>The tail: \<^verbatim>\<open>for( i=remain_offset; i<64; i++) buf[i] = rand() & 0xFF\<close>.\<close>

function tail_fill :: "int \<Rightarrow> gen_state \<Rightarrow> error + gen_state" where
  "tail_fill i s =
     (if i < 64 then
        (let (r, s1) = rand s in
         case store (nat i) (word_of_nat (r AND 0xFF)) s1 of
           Inl e \<Rightarrow> Inl e
         | Inr s2 \<Rightarrow> tail_fill (i + 1) s2)
      else Inr s)"
  by pat_completeness auto
termination
  by (relation "measure (\<lambda>(i, s). nat (64 - i))") auto

declare tail_fill.simps [simp del]

definition generate_rand_instr :: "bool \<Rightarrow> gen_state \<Rightarrow> error + gen_state" where
  "generate_rand_instr is_64bit s =
     (let (r, s1) = rand s;
          r2 = int (r mod 254);
          num_prefixes = num_prefixes_of r2
      in and_then (generate_prefix_bytes 0 num_prefixes is_64bit s1) (\<lambda>s2.
         and_then (escape_sequence (nat num_prefixes, s2)) (\<lambda>c.
         tail_fill (int (fst c)) (snd c))))"

section \<open>Standard output and \<^verbatim>\<open>printf\<close>\<close>

text \<open>
  The conversions of \<^verbatim>\<open>printf\<close> that the program uses, after the C standard:
  \<^verbatim>\<open>%d\<close>, \<^verbatim>\<open>%4d\<close> (padded with blanks to four characters) and \<^verbatim>\<open>%02X\<close> (upper-case
  hexadecimal, padded with zeros to two characters).
\<close>

definition digit_char :: "nat \<Rightarrow> char" where
  "digit_char d = ''0123456789ABCDEF'' ! d"

fun digits :: "nat \<Rightarrow> nat \<Rightarrow> string" where
  "digits base n =
     (if base < 2 \<or> n < base then [digit_char n]
      else digits base (n div base) @ [digit_char (n mod base)])"

declare digits.simps [simp del]

definition pad_left :: "char \<Rightarrow> nat \<Rightarrow> string \<Rightarrow> string" where
  "pad_left c w t = replicate (w - length t) c @ t"

definition fmt_d :: "int \<Rightarrow> string" where
  "fmt_d i = (if i < 0 then ''-'' @ digits 10 (nat (- i)) else digits 10 (nat i))"

definition fmt_4d :: "int \<Rightarrow> string" where
  "fmt_4d i = pad_left CHR '' '' 4 (fmt_d i)"

definition fmt_02X :: "nat \<Rightarrow> string" where
  "fmt_02X n = pad_left CHR ''0'' 2 (digits 16 n)"

section \<open>The decoder under test\<close>

text \<open>
  Modelled from the spec: the Zydis library (its header \<^verbatim>\<open>Zydis.h\<close> and its functions)
  is not part of the program. A decoder object is what the spec calls a decoding
  configuration: an addressing mode, a decoding width and the behavioural variants
  switched on. \<^verbatim>\<open>ZydisDecoderInit\<close> stores the mode and the width it is given,
  \<^verbatim>\<open>ZydisDecoderEnableMode\<close> adds a variant. The machine mode is kept as the \<^verbatim>\<open>int\<close>
  that the program reads from the object.
\<close>

datatype ZydisAddressWidth =
  ZYDIS_ADDRESS_WIDTH_16 | ZYDIS_ADDRESS_WIDTH_32 | ZYDIS_ADDRESS_WIDTH_64

datatype ZydisDecoderMode = ZYDIS_DECODER_MODE_KNC | ZYDIS_DECODER_MODE_AMD_BRANCHES

record ZydisDecoder =
  machine_mode :: int
  address_width :: ZydisAddressWidth
  decoder_modes :: "ZydisDecoderMode list"

definition ZydisDecoderInit :: "int \<Rightarrow> ZydisAddressWidth \<Rightarrow> ZydisDecoder" where
  "ZydisDecoderInit m w = \<lparr>machine_mode = m, address_width = w, decoder_modes = []\<rparr>"

definition ZydisDecoderEnableMode :: "ZydisDecoderMode \<Rightarrow> ZydisDecoder \<Rightarrow> ZydisDecoder" where
  "ZydisDecoderEnableMode m d = d\<lparr>decoder_modes := decoder_modes d @ [m]\<rparr>"

datatype signal = SIGABRT | SIGSEGV | SIGBUS | Other_Signal int

datatype decode_result = Returned int | Faulted signal

datatype exit_status = EXIT_SUCCESS | EXIT_FAILURE

section \<open>The process\<close>

text \<open>
  One call of \<^verbatim>\<open>ZydisDecoderDecodeBuffer\<close> as seen at the boundary to the library: the
  three globals as they are when the call is made, and the arguments of the call.
\<close>

record decoder_call =
  seen_instr_buf :: "byte list"
  seen_machine_mode_int :: int
  seen_machine_mode_str :: "string option"
  call_decoder :: ZydisDecoder
  call_buffer :: "byte list"
  call_length :: nat

text \<open>
  The state of the process: the three globals that record the last instruction
  (\<^verbatim>\<open>instr_buf\<close> is an array of sixteen bytes, \<^verbatim>\<open>machine_mode_str\<close> a pointer that is
  null until the first submission), the standard
  output (text still in the buffer of \<^verbatim>\<open>stdout\<close>, and text written out), the random
  source, and the log of the calls of the decoder, oldest first. The log is not program
  data.
\<close>

record process =
  instr_buf :: "byte list"
  machine_mode_int :: int
  machine_mode_str :: "string option"
  stdout_buffered :: string
  stdout_written :: string
  rand_state :: rand_source
  decoder_calls :: "decoder_call list"

datatype 'a outcome =
    Running 'a process
  | Terminated exit_status process
  | Killed signal process
  | Undefined_Behaviour error

text \<open>
  What the program takes from outside: the seeding of the C library's generator, its
  \<^verbatim>\<open>atoi\<close>, the four machine-mode constants of \<^verbatim>\<open>Zydis.h\<close>, the decoder (which may
  return a status or raise a signal, and may look at the process), and the bytes that the
  uninitialised buffer \<^verbatim>\<open>buf\<close> of the main loop holds in each iteration.
\<close>

record environment =
  srand :: "int \<Rightarrow> rand_source"
  atoi :: "string \<Rightarrow> int"
  ZYDIS_MACHINE_MODE_LONG_64 :: int
  ZYDIS_MACHINE_MODE_LEGACY_32 :: int
  ZYDIS_MACHINE_MODE_LEGACY_16 :: int
  ZYDIS_MACHINE_MODE_REAL_16 :: int
  ZydisDecoderDecodeBuffer :: "process \<Rightarrow> ZydisDecoder \<Rightarrow> byte list \<Rightarrow> nat \<Rightarrow> decode_result"
  stack_bytes :: "int \<Rightarrow> nat \<Rightarrow> byte"

definition printf :: "string \<Rightarrow> process \<Rightarrow> process" where
  "printf t p = p\<lparr>stdout_buffered := stdout_buffered p @ t\<rparr>"

definition fflush_stdout :: "process \<Rightarrow> process" where
  "fflush_stdout p =
     p\<lparr>stdout_written := stdout_written p @ stdout_buffered p, stdout_buffered := []\<rparr>"

text \<open>\<^verbatim>\<open>exit\<close> writes out what the streams still hold and ends the process.\<close>

definition exit_with :: "exit_status \<Rightarrow> process \<Rightarrow> 'a outcome" where
  "exit_with st p = Terminated st (fflush_stdout p)"

section \<open>The fault handler\<close>

text \<open>\<^verbatim>\<open>for(i=0;i<16;i++) printf("%02X ", instr_buf[i] )\<close>\<close>

function print_instr_buf :: "int \<Rightarrow> process \<Rightarrow> process" where
  "print_instr_buf i p =
     (if i < 16
      then print_instr_buf (i + 1) (printf (fmt_02X (unat (instr_buf p ! nat i)) @ '' '') p)
      else p)"
  by pat_completeness auto
termination
  by (relation "measure (\<lambda>(i, p). nat (16 - i))") auto

declare print_instr_buf.simps [simp del]

text \<open>
  Passing a null pointer for \<^verbatim>\<open>%s\<close> has no defined behaviour; the model stops there.
\<close>

definition sigabrt_handler :: "signal \<Rightarrow> process \<Rightarrow> 'a outcome" where
  "sigabrt_handler signal_type p =
     (let p1 = printf ''\<newline>'' p;
          sigstr = (case signal_type of
                      SIGABRT \<Rightarrow> ''SIGABRT''
                    | SIGSEGV \<Rightarrow> ''SIGSEGV''
                    | SIGBUS \<Rightarrow> ''SIGBUS''
                    | Other_Signal _ \<Rightarrow> ''n/a'')
      in case machine_mode_str p1 of
           None \<Rightarrow> Undefined_Behaviour Null_Read
         | Some label \<Rightarrow>
            (let p2 = printf (''Machine mode: '' @ fmt_d (machine_mode_int p1)
                                @ '' ('' @ label @ '')\<newline>'') p1;
                 p3 = printf (''Opcode at time of '' @ sigstr @ '':\<newline>'') p2;
                 p4 = print_instr_buf 0 p3;
                 p5 = printf ''\<newline>'' p4;
                 p6 = fflush_stdout p5
             in exit_with EXIT_FAILURE p6))"

text \<open>
  \<^verbatim>\<open>install_sigabrt_handler\<close> sets the handler for \<^verbatim>\<open>SIGABRT\<close>, \<^verbatim>\<open>SIGSEGV\<close> and
  \<^verbatim>\<open>SIGBUS\<close>; every other signal keeps its default action. A signal raised by a fault
  runs the handler if there is one; otherwise it kills the process on the spot, and what
  is in the buffer of \<^verbatim>\<open>stdout\<close> is lost.
\<close>

datatype disposition = Default_Action | Handler

definition install_sigabrt_handler :: "signal \<Rightarrow> disposition" where
  "install_sigabrt_handler sig =
     (case sig of
        SIGABRT \<Rightarrow> Handler
      | SIGSEGV \<Rightarrow> Handler
      | SIGBUS \<Rightarrow> Handler
      | Other_Signal _ \<Rightarrow> Default_Action)"

definition deliver :: "signal \<Rightarrow> process \<Rightarrow> 'a outcome" where
  "deliver sig p =
     (case install_sigabrt_handler sig of
        Handler \<Rightarrow> sigabrt_handler sig p
      | Default_Action \<Rightarrow> Killed sig p)"

section \<open>The recording wrapper of the decoder\<close>

definition machine_mode_label :: "environment \<Rightarrow> int \<Rightarrow> string" where
  "machine_mode_label E m =
     (if m = ZYDIS_MACHINE_MODE_LONG_64 E then ''long64''
      else if m = ZYDIS_MACHINE_MODE_LEGACY_32 E then ''protected32''
      else if m = ZYDIS_MACHINE_MODE_LEGACY_16 E then ''protected16''
      else if m = ZYDIS_MACHINE_MODE_REAL_16 E then ''real16''
      else ''(n/a)'')"

text \<open>
  \<^verbatim>\<open>memcpy( instr_buf, buffer, 16 )\<close> reads sixteen bytes, whatever \<^verbatim>\<open>length\<close> says: a
  shorter buffer is read past its end. A fault inside the decoder raises a signal.
\<close>

definition wrapped_ZydisDecoderDecodeBuffer ::
  "environment \<Rightarrow> ZydisDecoder \<Rightarrow> byte list \<Rightarrow> nat \<Rightarrow> process \<Rightarrow> int outcome" where
  "wrapped_ZydisDecoderDecodeBuffer E decoder buffer len p =
     (if length buffer < 16 then Undefined_Behaviour (Out_Of_Bounds_Read (length buffer))
      else
        (let p1 = p\<lparr>instr_buf := take 16 buffer\<rparr>;
             p2 = p1\<lparr>machine_mode_int := machine_mode decoder\<rparr>;
             p3 = p2\<lparr>machine_mode_str := Some (machine_mode_label E (machine_mode_int p2))\<rparr>;
             p4 = p3\<lparr>decoder_calls := decoder_calls p3 @
                    [\<lparr>seen_instr_buf = instr_buf p3,
                      seen_machine_mode_int = machine_mode_int p3,
                      seen_machine_mode_str = machine_mode_str p3,
                      call_decoder = decoder, call_buffer = buffer, call_length = len\<rparr>]\<rparr>
         in case ZydisDecoderDecodeBuffer E p4 decoder buffer len of
              Returned status \<Rightarrow> Running status p4
            | Faulted sig \<Rightarrow> deliver sig p4))"

section \<open>The main function\<close>

text \<open>The four decoder objects of \<^verbatim>\<open>main\<close>, as they are once the loop starts.\<close>

datatype decoder_var =
  decoder_x86_16 | decoder_x86_32 | decoder_x86_64_intel | decoder_x86_64_amd

definition decoder_object :: "environment \<Rightarrow> decoder_var \<Rightarrow> ZydisDecoder" where
  "decoder_object E v =
     (case v of
        decoder_x86_16 \<Rightarrow>
          ZydisDecoderEnableMode ZYDIS_DECODER_MODE_KNC
            (ZydisDecoderInit (ZYDIS_MACHINE_MODE_LEGACY_16 E) ZYDIS_ADDRESS_WIDTH_16)
      | decoder_x86_32 \<Rightarrow>
          ZydisDecoderEnableMode ZYDIS_DECODER_MODE_KNC
            (ZydisDecoderInit (ZYDIS_MACHINE_MODE_LEGACY_32 E) ZYDIS_ADDRESS_WIDTH_32)
      | decoder_x86_64_intel \<Rightarrow>
          ZydisDecoderEnableMode ZYDIS_DECODER_MODE_KNC
            (ZydisDecoderInit (ZYDIS_MACHINE_MODE_LONG_64 E) ZYDIS_ADDRESS_WIDTH_64)
      | decoder_x86_64_amd \<Rightarrow>
          ZydisDecoderEnableMode ZYDIS_DECODER_MODE_AMD_BRANCHES
            (ZydisDecoderEnableMode ZYDIS_DECODER_MODE_KNC
              (ZydisDecoderInit (ZYDIS_MACHINE_MODE_LONG_64 E) ZYDIS_ADDRESS_WIDTH_64)))"

text \<open>
  The body of \<^verbatim>\<open>switch( rand() & 3 )\<close>, as a function of the value switched on. The
  switch has no default: with any other value \<^verbatim>\<open>bits\<close> and \<^verbatim>\<open>decoder_to_use\<close> would
  be left unset, which is \<open>None\<close> here.
\<close>

definition select_decoder :: "nat \<Rightarrow> (int \<times> decoder_var) option" where
  "select_decoder sel =
     (if sel = 0 then Some (16, decoder_x86_16)
      else if sel = 1 then Some (32, decoder_x86_32)
      else if sel = 2 then Some (64, decoder_x86_64_intel)
      else if sel = 3 then Some (64, decoder_x86_64_amd)
      else None)"

text \<open>The breadcrumbs printed after a test has passed.\<close>

definition print_breadcrumbs :: "int \<Rightarrow> process \<Rightarrow> process" where
  "print_breadcrumbs passed_tests p =
     (if passed_tests mod 1000000 = 0 then
        (let p1 = printf ''.'' p;
             p2 = (if passed_tests mod 10000000 = 0
                   then printf (''[ '' @ fmt_4d (passed_tests div 1000000)
                                 @ ''M tests passed ]\<newline>'') p1
                   else p1)
         in fflush_stdout p2)
      else p)"

text \<open>
  The main loop \<^verbatim>\<open>for(i=0;i<limit;i++)\<close>; the program runs it with the limit
  2000000000. The buffer \<^verbatim>\<open>buf\<close> is a fresh local array of 64 bytes in each iteration.
\<close>

function main_loop :: "environment \<Rightarrow> int \<Rightarrow> int \<Rightarrow> process \<Rightarrow> unit outcome" where
  "main_loop E i limit p =
     (if i < limit then
        (let r = shd (rand_state p);
             p1 = p\<lparr>rand_state := stl (rand_state p)\<rparr>
         in case select_decoder (r AND 3) of
              None \<Rightarrow> Undefined_Behaviour Uninitialised_Read
            | Some (bits, decoder_to_use) \<Rightarrow>
               (case generate_rand_instr (bits = 64)
                       \<lparr>buf = map (stack_bytes E i) [0..<64], rng = rand_state p1, stores = []\<rparr> of
                  Inl e \<Rightarrow> Undefined_Behaviour e
                | Inr g \<Rightarrow>
                   (case wrapped_ZydisDecoderDecodeBuffer E (decoder_object E decoder_to_use)
                           (buf g) 64 (p1\<lparr>rand_state := rng g\<rparr>) of
                      Running status p2 \<Rightarrow> main_loop E (i + 1) limit (print_breadcrumbs (i + 1) p2)
                    | Terminated st p2 \<Rightarrow> Terminated st p2
                    | Killed sig p2 \<Rightarrow> Killed sig p2
                    | Undefined_Behaviour e \<Rightarrow> Undefined_Behaviour e)))
      else exit_with EXIT_SUCCESS p)"
  by pat_completeness auto
termination
  by (relation "measure (\<lambda>(E, i, limit, p). nat (limit - i))") auto

declare main_loop.simps [simp del]

text \<open>The process as it is when \<^verbatim>\<open>main\<close> starts: zeroed globals, nothing printed.\<close>

definition initial_process :: "rand_source \<Rightarrow> process" where
  "initial_process r =
     \<lparr>instr_buf = replicate 16 0, machine_mode_int = 0, machine_mode_str = None,
      stdout_buffered = [], stdout_written = [], rand_state = r, decoder_calls = []\<rparr>"

text \<open>
  \<^verbatim>\<open>main\<close>, given the arguments after the program's name and the number of iterations.
\<close>

definition main_with_limit :: "environment \<Rightarrow> int \<Rightarrow> string list \<Rightarrow> unit outcome" where
  "main_with_limit E limit args =
     main_loop E 0 limit
       (initial_process (srand E (case args of [] \<Rightarrow> 0 | a # _ \<Rightarrow> atoi E a)))"

definition main :: "environment \<Rightarrow> string list \<Rightarrow> unit outcome" where
  "main E args = main_with_limit E 2000000000 args"

section \<open>Notions used to state the properties\<close>

text \<open>
  The state after a successful store, and the bytes that a step has appended to the log
  of stores of a state \<open>s\<close>.
\<close>

definition stored :: "nat \<Rightarrow> byte \<Rightarrow> gen_state \<Rightarrow> gen_state" where
  "stored i v s = s\<lparr>buf := (buf s)[i := v], stores := stores s @ [(i, v)]\<rparr>"

definition emitted :: "gen_state \<Rightarrow> error + nat \<times> gen_state \<Rightarrow> byte list option" where
  "emitted s r =
     (case r of
        Inl e \<Rightarrow> None
      | Inr c \<Rightarrow> Some (map snd (drop (length (stores s)) (stores (snd c)))))"

text \<open>
  The invariant of the encoder: the stores so far went to the indices \<open>0, 1, \<dots>, k - 1\<close>,
  once each and in this order, and the buffer holds what was stored.
\<close>

definition written_upto :: "nat \<Rightarrow> gen_state \<Rightarrow> bool" where
  "written_upto k s \<longleftrightarrow> k \<le> length (buf s) \<and> stores s = zip [0..<k] (take k (buf s))"

text \<open>The number of draws \<open>r\<close> in \<open>0..253\<close> that give the prefix count \<open>k\<close>.\<close>

definition prefix_count_mass :: "nat \<Rightarrow> nat" where
  "prefix_count_mass k = length (filter (\<lambda>r. num_prefixes_of (int r) = int k) [0..<254])"

text \<open>
  The escape sequences by the names the source gives them, recognised from the bytes
  written, and the bytes that the switch writes for a value \<open>sel\<close> switched on.
\<close>

datatype escape_class =
  No_Escape | Escape_0F0F | Escape_0F38 | Escape_0F3A | Escape_0F | EVEX | VEX3 | VEX2 | XOP

fun escape_class_of :: "byte list \<Rightarrow> escape_class option" where
  "escape_class_of [] = Some No_Escape"
| "escape_class_of [a] = (if a = 0x0F then Some Escape_0F else None)"
| "escape_class_of [a, b] =
     (if a = 0x0F \<and> b = 0x0F then Some Escape_0F0F
      else if a = 0x0F \<and> b = 0x38 then Some Escape_0F38
      else if a = 0x0F \<and> b = 0x3A then Some Escape_0F3A
      else if a = 0xC5 then Some VEX2
      else None)"
| "escape_class_of [a, b, c] =
     (if a = 0x62 then Some EVEX
      else if a = 0xC4 then Some VEX3
      else if a = 0x8F then Some XOP
      else None)"
| "escape_class_of _ = None"

definition escape_bytes :: "nat \<Rightarrow> nat \<Rightarrow> gen_state \<Rightarrow> byte list option" where
  "escape_bytes sel k s = emitted s (escape_case sel (k, s))"

text \<open>
  Two generator states agree when they differ at most in what the buffer holds: same
  random source, same log of stores, buffers of the same size.
\<close>

definition agree :: "gen_state \<Rightarrow> gen_state \<Rightarrow> bool" where
  "agree s t \<longleftrightarrow> rng s = rng t \<and> stores s = stores t \<and> length (buf s) = length (buf t)"

text \<open>The process in which a run goes on or has ended, if it has not gone wrong.\<close>

definition outcome_process :: "'a outcome \<Rightarrow> process option" where
  "outcome_process r =
     (case r of
        Running _ q \<Rightarrow> Some q
      | Terminated _ q \<Rightarrow> Some q
      | Killed _ q \<Rightarrow> Some q
      | Undefined_Behaviour _ \<Rightarrow> None)"

text \<open>The name the handler prints for a signal, and the text of its report.\<close>

definition signal_name :: "signal \<Rightarrow> string" where
  "signal_name sig =
     (case sig of SIGABRT \<Rightarrow> ''SIGABRT'' | SIGSEGV \<Rightarrow> ''SIGSEGV'' | SIGBUS \<Rightarrow> ''SIGBUS''
      | Other_Signal _ \<Rightarrow> ''n/a'')"

definition fault_report :: "signal \<Rightarrow> process \<Rightarrow> string \<Rightarrow> string" where
  "fault_report sig p label =
     ''\<newline>'' @ ''Machine mode: '' @ fmt_d (machine_mode_int p) @ '' ('' @ label @ '')\<newline>''
     @ ''Opcode at time of '' @ signal_name sig @ '':\<newline>''
     @ concat (map (\<lambda>b. fmt_02X (unat b) @ '' '') (instr_buf p)) @ ''\<newline>''"




text \<open>
  The process at the moment the wrapper calls the decoder, the process once the handler
  has reported a fault, and how a run ends when a signal is raised after a submission.
\<close>

definition at_call :: "environment \<Rightarrow> ZydisDecoder \<Rightarrow> byte list \<Rightarrow> nat \<Rightarrow> process \<Rightarrow> process" where
  "at_call E decoder buffer len p =
     p\<lparr>instr_buf := take 16 buffer,
       machine_mode_int := machine_mode decoder,
       machine_mode_str := Some (machine_mode_label E (machine_mode decoder)),
       decoder_calls := decoder_calls p @
         [\<lparr>seen_instr_buf = take 16 buffer,
           seen_machine_mode_int = machine_mode decoder,
           seen_machine_mode_str = Some (machine_mode_label E (machine_mode decoder)),
           call_decoder = decoder, call_buffer = buffer, call_length = len\<rparr>]\<rparr>"

definition after_fault :: "signal \<Rightarrow> process \<Rightarrow> process" where
  "after_fault sig p =
     p\<lparr>stdout_buffered := [],
       stdout_written := stdout_written p @ stdout_buffered p
         @ fault_report sig p (case machine_mode_str p of None \<Rightarrow> [] | Some l \<Rightarrow> l)\<rparr>"

definition fault_outcome :: "signal \<Rightarrow> process \<Rightarrow> 'a outcome" where
  "fault_outcome sig p =
     (case install_sigabrt_handler sig of
        Handler \<Rightarrow> Terminated EXIT_FAILURE (after_fault sig p)
      | Default_Action \<Rightarrow> Killed sig p)"

text \<open>
  What the program has submitted to the decoder: the decoder objects and the buffers of
  the logged calls, in order. A run is finished when it has ended with the success status.
\<close>

definition submissions_of :: "process \<Rightarrow> (ZydisDecoder \<times> byte list) list" where
  "submissions_of p = map (\<lambda>c. (call_decoder c, call_buffer c)) (decoder_calls p)"

definition submissions :: "'a outcome \<Rightarrow> (ZydisDecoder \<times> byte list) list" where
  "submissions r = (case outcome_process r of None \<Rightarrow> [] | Some q \<Rightarrow> submissions_of q)"

definition finished :: "'a outcome \<Rightarrow> bool" where
  "finished r = (case r of Terminated st _ \<Rightarrow> st = EXIT_SUCCESS | _ \<Rightarrow> False)"

text \<open>
  The number of draws \<open>r\<close> in \<open>0, \<dots>, N - 1\<close> for which the switch selects the decoder
  \<open>v\<close>.
\<close>

definition selection_count :: "decoder_var \<Rightarrow> nat \<Rightarrow> nat" where
  "selection_count v N =
     length (filter (\<lambda>r. map_option snd (select_decoder (r AND 3)) = Some v) [0..<N])"

text \<open>Inputs on which the theorems below are exercised.\<close>

definition fresh_state :: "rand_source \<Rightarrow> gen_state" where
  "fresh_state r = \<lparr>buf = replicate 64 0, rng = r, stores = []\<rparr>"

definition example_environment ::
  "(process \<Rightarrow> ZydisDecoder \<Rightarrow> byte list \<Rightarrow> nat \<Rightarrow> decode_result) \<Rightarrow> environment" where
  "example_environment decoder =
     \<lparr>srand = (\<lambda>seed. siterate (\<lambda>x. (x * 1103515245 + 12345) mod 2147483648) (nat \<bar>seed\<bar>)),
      atoi = (\<lambda>_. 42),
      ZYDIS_MACHINE_MODE_LONG_64 = 0,
      ZYDIS_MACHINE_MODE_LEGACY_32 = 3,
      ZYDIS_MACHINE_MODE_LEGACY_16 = 4,
      ZYDIS_MACHINE_MODE_REAL_16 = 5,
      ZydisDecoderDecodeBuffer = decoder,
      stack_bytes = (\<lambda>_ _. 0)\<rparr>"



definition example_start :: process where
  "example_start = initial_process (2 ## 102 ## 43 ## sconst 0)"

section \<open>The encoder: stores and the invariant\<close>

lemma and_then_Inr [simp]: "and_then (Inr x) f = f x"
  by (simp add: and_then_def)

lemma and_then_Inl [simp]: "and_then (Inl e) f = Inl e"
  by (simp add: and_then_def)

lemma rand_simps [simp]:
  "fst (rand s) = shd (rng s)"
  "buf (snd (rand s)) = buf s"
  "stores (snd (rand s)) = stores s"
  "rng (snd (rand s)) = stl (rng s)"
  by (simp_all add: rand_def)

lemma written_upto_rand [simp]: "written_upto k (snd (rand s)) = written_upto k s"
  by (simp add: written_upto_def)

lemma store_ok:
  assumes "i < length (buf s)"
  shows "store i v s = Inr (s\<lparr>buf := (buf s)[i := v], stores := stores s @ [(i, v)]\<rparr>)"
  using assms by (simp add: store_def)

lemma written_upto_step:
  assumes "written_upto k s" and "k < length (buf s)"
  shows "written_upto (Suc k) (s\<lparr>buf := (buf s)[k := v], stores := stores s @ [(k, v)]\<rparr>)"
proof -
  have "take (Suc k) ((buf s)[k := v]) = take k (buf s) @ [v]"
    using assms(2) by (simp add: take_Suc_conv_app_nth)
  moreover have "length (take k (buf s)) = k"
    using assms(2) by simp
  ultimately show ?thesis
    using assms by (simp add: written_upto_def)
qed

lemma store_written:
  assumes "written_upto k s" and "k < length (buf s)"
  shows "\<exists>s'. store k v s = Inr s' \<and> written_upto (Suc k) s' \<and> length (buf s') = length (buf s)
     \<and> rng s' = rng s"
  using written_upto_step [OF assms] assms(2) by (simp add: store_ok)

lemma prefix_loop_written:
  assumes "0 \<le> i" and "i \<le> n" and "dst + nat n \<le> length (buf s)"
    and "written_upto (dst + nat i) s"
  shows "\<exists>s'. prefix_loop m dst i n s = Inr s' \<and> written_upto (dst + nat n) s'
     \<and> length (buf s') = length (buf s)"
  using assms
proof (induction m dst i n s rule: prefix_loop.induct)
  case (1 m dst i n s)
  show ?case
  proof (cases "i < n")
    case False
    with "1.prems" have "i = n" by simp
    with "1.prems" show ?thesis by (simp add: prefix_loop.simps [of m dst n n])
  next
    case True
    define r where "r = shd (rng s)"
    define s1 where "s1 = s\<lparr>rng := stl (rng s)\<rparr>"
    have rs: "rand s = (r, s1)" by (simp add: rand_def r_def s1_def)
    have b1: "length (buf s1) = length (buf s)" by (simp add: s1_def)
    have w: "written_upto (dst + nat i) s1"
      using "1.prems" by (simp add: s1_def written_upto_def)
    have lt: "dst + nat i < length (buf s1)" using True "1.prems" by (simp add: b1)
    from store_written [OF w lt, of "prefix_collection ! (r mod m)"]
    obtain s2 where s2: "store (dst + nat i) (prefix_collection ! (r mod m)) s1 = Inr s2"
      "written_upto (Suc (dst + nat i)) s2" "length (buf s2) = length (buf s1)" by blast
    have suc: "Suc (dst + nat i) = dst + nat (i + 1)" using "1.prems" by simp
    have "\<exists>s'. prefix_loop m dst (i + 1) n s2 = Inr s' \<and> written_upto (dst + nat n) s'
       \<and> length (buf s') = length (buf s2)"
      using "1.IH" [OF True rs [symmetric] refl s2(1)] s2 True "1.prems"
      by (simp add: suc b1)
    then show ?thesis
      using True rs s2 by (simp add: prefix_loop.simps [of m dst i n s] b1)
  qed
qed

lemma tail_fill_written:
  assumes "0 \<le> i" and "i \<le> 64" and "64 \<le> length (buf s)" and "written_upto (nat i) s"
  shows "\<exists>s'. tail_fill i s = Inr s' \<and> written_upto 64 s' \<and> length (buf s') = length (buf s)"
  using assms
proof (induction i s rule: tail_fill.induct)
  case (1 i s)
  show ?case
  proof (cases "i < 64")
    case False
    with "1.prems" have "i = 64" by simp
    with "1.prems" show ?thesis by (simp add: tail_fill.simps [of 64])
  next
    case True
    define r where "r = shd (rng s)"
    define s1 where "s1 = s\<lparr>rng := stl (rng s)\<rparr>"
    have rs: "rand s = (r, s1)" by (simp add: rand_def r_def s1_def)
    have b1: "length (buf s1) = length (buf s)" by (simp add: s1_def)
    have w: "written_upto (nat i) s1" using "1.prems" by (simp add: s1_def written_upto_def)
    have lt: "nat i < length (buf s1)" using True "1.prems" by (simp add: b1)
    from store_written [OF w lt, of "word_of_nat (r AND 0xFF)"]
    obtain s2 where s2: "store (nat i) (word_of_nat (r AND 0xFF)) s1 = Inr s2"
      "written_upto (Suc (nat i)) s2" "length (buf s2) = length (buf s1)" by blast
    have suc: "Suc (nat i) = nat (i + 1)" using "1.prems" by simp
    have "\<exists>s'. tail_fill (i + 1) s2 = Inr s' \<and> written_upto 64 s'
       \<and> length (buf s') = length (buf s2)"
      using "1.IH" [OF True rs [symmetric] refl s2(1)] s2 True "1.prems"
      by (simp add: suc b1)
    then show ?thesis
      using True rs s2 by (simp add: tail_fill.simps [of i s] b1)
  qed
qed

lemma stored_simps [simp]:
  "length (buf (stored i v s)) = length (buf s)"
  "rng (stored i v s) = rng s"
  "stores (stored i v s) = stores s @ [(i, v)]"
  "(stored i v s)\<lparr>rng := r\<rparr> = stored i v (s\<lparr>rng := r\<rparr>)"
  by (simp_all add: stored_def)

lemma written_upto_stored:
  "written_upto k s \<Longrightarrow> k < length (buf s) \<Longrightarrow> written_upto (Suc k) (stored k v s)"
  unfolding stored_def by (rule written_upto_step)

lemma written_upto_rng [simp]: "written_upto k (s\<lparr>rng := r\<rparr>) = written_upto k s"
  by (simp add: written_upto_def)

lemma emit_stored: "k < length (buf s) \<Longrightarrow> emit v (k, s) = Inr (Suc k, stored k v s)"
  by (simp add: emit_def store_def stored_def)

lemma rand_eq: "rand s = (shd (rng s), s\<lparr>rng := stl (rng s)\<rparr>)"
  by (simp add: rand_def)

lemma escape_case_0: "escape_case 0 (k, s) = Inr (k, s)"
  by (simp add: escape_case_def)

lemma escape_case_1:
  "k + 2 \<le> length (buf s) \<Longrightarrow>
   escape_case 1 (k, s) = Inr (k + 2, stored (Suc k) 0x0F (stored k 0x0F s))"
  by (simp add: escape_case_def emit_stored)

lemma escape_case_2:
  "k + 2 \<le> length (buf s) \<Longrightarrow>
   escape_case 2 (k, s) = Inr (k + 2, stored (Suc k) 0x38 (stored k 0x0F s))"
  by (simp add: escape_case_def emit_stored)

lemma escape_case_3:
  "k + 2 \<le> length (buf s) \<Longrightarrow>
   escape_case 3 (k, s) = Inr (k + 2, stored (Suc k) 0x3A (stored k 0x0F s))"
  by (simp add: escape_case_def emit_stored)

lemma escape_case_4:
  "k + 1 \<le> length (buf s) \<Longrightarrow> escape_case 4 (k, s) = Inr (k + 1, stored k 0x0F s)"
  by (simp add: escape_case_def emit_stored)

lemma escape_case_evex:
  assumes "sel \<in> {5, 6, 7, 8, 9, 10}" and "k + 3 \<le> length (buf s)"
  shows "escape_case sel (k, s) =
    Inr (k + 3,
      stored (Suc (Suc k)) (ucast (forced_field (word_of_nat (shd (stl (rng s))))))
        (stored (Suc k) (ucast (masked_field 0xF7 (word_of_nat (shd (rng s)))))
          (stored k 0x62 (s\<lparr>rng := stl (stl (rng s))\<rparr>))))"
proof -
  have sel: "sel \<noteq> 0" "sel \<noteq> Suc 0" "sel \<noteq> 2" "sel \<noteq> 3" "sel \<noteq> 4"
    using assms(1) by auto
  show ?thesis
    using assms by (simp add: escape_case_def sel rand_eq emit_stored del: insert_iff)
qed

lemma escape_case_vex3:
  assumes "sel \<in> {11, 12, 13, 14, 15, 16}" and "k + 3 \<le> length (buf s)"
  shows "escape_case sel (k, s) =
    Inr (k + 3,
      stored (Suc (Suc k)) (ucast (forced_field (word_of_nat (shd (stl (rng s))))))
        (stored (Suc k) (ucast (masked_field 0xE3 (word_of_nat (shd (rng s)))))
          (stored k 0xC4 (s\<lparr>rng := stl (stl (rng s))\<rparr>))))"
proof -
  have sel: "sel \<noteq> 0" "sel \<noteq> Suc 0" "sel \<noteq> 2" "sel \<noteq> 3" "sel \<noteq> 4"
    "sel \<notin> {5, 6, 7, 8, 9, 10}"
    using assms(1) by auto
  show ?thesis
    using assms by (simp add: escape_case_def sel rand_eq emit_stored del: insert_iff)
qed

lemma escape_case_vex2:
  assumes "sel \<in> {17, 18, 19, 20, 21, 22}" and "k + 2 \<le> length (buf s)"
  shows "escape_case sel (k, s) =
    Inr (k + 2,
      stored (Suc k) (ucast (forced_field (word_of_nat (shd (rng s)))))
        (stored k 0xC5 (s\<lparr>rng := stl (rng s)\<rparr>)))"
proof -
  have sel: "sel \<noteq> 0" "sel \<noteq> Suc 0" "sel \<noteq> 2" "sel \<noteq> 3" "sel \<noteq> 4"
    "sel \<notin> {5, 6, 7, 8, 9, 10}" "sel \<notin> {11, 12, 13, 14, 15, 16}"
    using assms(1) by auto
  show ?thesis
    using assms by (simp add: escape_case_def sel rand_eq emit_stored del: insert_iff)
qed

lemma escape_case_xop:
  assumes "23 \<le> sel" and "k + 3 \<le> length (buf s)"
  shows "escape_case sel (k, s) =
    Inr (k + 3,
      stored (Suc (Suc k)) (ucast (forced_field (word_of_nat (shd (stl (rng s))))))
        (stored (Suc k) (ucast (masked_field 0xE3 (word_of_nat (shd (rng s))) XOR 8))
          (stored k 0x8F (s\<lparr>rng := stl (stl (rng s))\<rparr>))))"
proof -
  have sel: "sel \<noteq> 0" "sel \<noteq> Suc 0" "sel \<noteq> 2" "sel \<noteq> 3" "sel \<noteq> 4"
    "sel \<notin> {5, 6, 7, 8, 9, 10}" "sel \<notin> {11, 12, 13, 14, 15, 16}"
    "sel \<notin> {17, 18, 19, 20, 21, 22}"
    using assms(1) by auto
  show ?thesis
    using assms by (simp add: escape_case_def sel rand_eq emit_stored del: insert_iff)
qed

lemma sel_cases:
  fixes sel :: nat
  obtains "sel = 0" | "sel = 1" | "sel = 2" | "sel = 3" | "sel = 4"
  | "sel \<in> {5, 6, 7, 8, 9, 10}" | "sel \<in> {11, 12, 13, 14, 15, 16}"
  | "sel \<in> {17, 18, 19, 20, 21, 22}" | "23 \<le> sel"
proof -
  have "sel < 5 \<or> (5 \<le> sel \<and> sel \<le> 10) \<or> (11 \<le> sel \<and> sel \<le> 16)
      \<or> (17 \<le> sel \<and> sel \<le> 22) \<or> 23 \<le> sel"
    by arith
  moreover have "sel = 0 \<or> sel = 1 \<or> sel = 2 \<or> sel = 3 \<or> sel = 4" if "sel < 5"
    using that by arith
  moreover have "sel \<in> {5, 6, 7, 8, 9, 10}" if "5 \<le> sel \<and> sel \<le> 10"
    using that by (simp; arith)
  moreover have "sel \<in> {11, 12, 13, 14, 15, 16}" if "11 \<le> sel \<and> sel \<le> 16"
    using that by (simp; arith)
  moreover have "sel \<in> {17, 18, 19, 20, 21, 22}" if "17 \<le> sel \<and> sel \<le> 22"
    using that by (simp; arith)
  ultimately show ?thesis
    using that by blast
qed

lemma escape_case_written:
  assumes "k + 3 \<le> length (buf s)" and "written_upto k s"
  shows "\<exists>k' s'. escape_case sel (k, s) = Inr (k', s') \<and> k \<le> k' \<and> k' \<le> k + 3
     \<and> written_upto k' s' \<and> length (buf s') = length (buf s)"
proof -
  have k3 [simp]: "k + 3 = Suc (Suc (Suc k))" "k + 2 = Suc (Suc k)" by simp_all
  show ?thesis
  proof (cases sel rule: sel_cases)
  case 1
  then show ?thesis using assms by (simp add: escape_case_0)
next
  case 2
  then show ?thesis using assms
    by (simp add: escape_case_1 [unfolded One_nat_def] written_upto_stored)
next
  case 3
  then show ?thesis using assms by (simp add: escape_case_2 written_upto_stored)
next
  case 4
  then show ?thesis using assms by (simp add: escape_case_3 written_upto_stored)
next
  case 5
  then show ?thesis using assms by (simp add: escape_case_4 written_upto_stored)
next
  case 6
  then show ?thesis using assms
    by (simp add: escape_case_evex written_upto_stored del: insert_iff)
next
  case 7
  then show ?thesis using assms
    by (simp add: escape_case_vex3 written_upto_stored del: insert_iff)
next
  case 8
  then show ?thesis using assms
    by (simp add: escape_case_vex2 written_upto_stored del: insert_iff)
next
  case 9
  then show ?thesis using assms
    by (simp add: escape_case_xop written_upto_stored del: insert_iff)
  qed
qed

lemma num_prefixes_of_nat: "num_prefixes_of (int r) = int (r ^ 3 div 2 ^ 20)"
  by (simp add: num_prefixes_of_def drop_bit_eq_div power3_eq_cube zdiv_int)

lemma prefix_cube_fits_int:
  "0 \<le> int (r mod 254) * int (r mod 254) * int (r mod 254)
   \<and> int (r mod 254) * int (r mod 254) * int (r mod 254) < 2 ^ 31"
proof -
  have "r mod 254 \<le> 253" by simp
  then have "(r mod 254) ^ 3 \<le> 253 ^ 3" by (rule power_mono) simp
  then have "(r mod 254) ^ 3 < 2 ^ 31" by simp
  then have "int ((r mod 254) ^ 3) < int (2 ^ 31)" by (simp only: of_nat_less_iff)
  then show ?thesis by (simp add: power3_eq_cube)
qed

lemma num_prefixes_bound:
  "0 \<le> num_prefixes_of (int (r mod 254)) \<and> num_prefixes_of (int (r mod 254)) \<le> 15"
proof -
  have "r mod 254 \<le> 253" by simp
  then have "(r mod 254) ^ 3 \<le> 253 ^ 3" by (rule power_mono) simp
  then have "(r mod 254) ^ 3 div 2 ^ 20 \<le> 253 ^ 3 div 2 ^ 20" by (rule div_le_mono)
  then show ?thesis by (simp add: num_prefixes_of_nat)
qed

lemma prefix_loop_effect:
  assumes "0 \<le> i" and "dst + nat n \<le> length (buf s)"
  shows "\<exists>s' new. prefix_loop m dst i n s = Inr s' \<and> stores s' = stores s @ new
     \<and> map fst new = map (\<lambda>j. dst + j) [nat i..<nat n]
     \<and> set (map snd new) \<subseteq> (\<lambda>r. prefix_collection ! (r mod m)) ` UNIV
     \<and> length (buf s') = length (buf s)"
  using assms
proof (induction m dst i n s rule: prefix_loop.induct)
  case (1 m dst i n s)
  show ?case
  proof (cases "i < n")
    case False
    then have "[nat i..<nat n] = []" by simp
    with False show ?thesis by (simp add: prefix_loop.simps [of m dst i n])
  next
    case True
    define r where "r = shd (rng s)"
    define s1 where "s1 = s\<lparr>rng := stl (rng s)\<rparr>"
    define s2 where "s2 = stored (dst + nat i) (prefix_collection ! (r mod m)) s1"
    have rs: "rand s = (r, s1)" by (simp add: rand_def r_def s1_def)
    have lt: "dst + nat i < length (buf s1)" using True "1.prems" by (simp add: s1_def)
    have st: "store (dst + nat i) (prefix_collection ! (r mod m)) s1 = Inr s2"
      using lt by (simp add: store_def stored_def s2_def)
    have "dst + nat n \<le> length (buf s2)" using "1.prems" by (simp add: s2_def s1_def)
    from "1.IH" [OF True rs [symmetric] refl st _ this] "1.prems"
    obtain s' new where *: "prefix_loop m dst (i + 1) n s2 = Inr s'"
      "stores s' = stores s2 @ new" "map fst new = map (\<lambda>j. dst + j) [nat (i + 1)..<nat n]"
      "set (map snd new) \<subseteq> (\<lambda>r. prefix_collection ! (r mod m)) ` UNIV"
      "length (buf s') = length (buf s2)"
      by auto
    have upt: "[nat i..<nat n] = nat i # [nat (i + 1)..<nat n]"
      using True "1.prems" by (simp add: upt_conv_Cons nat_add_distrib)
    have "prefix_loop m dst i n s = Inr s'"
      using True rs st * by (simp add: prefix_loop.simps [of m dst i n s])
    moreover have "stores s' = stores s @ (dst + nat i, prefix_collection ! (r mod m)) # new"
      using * by (simp add: s2_def s1_def)
    moreover have "map fst ((dst + nat i, prefix_collection ! (r mod m)) # new)
        = map (\<lambda>j. dst + j) [nat i..<nat n]"
      using * by (simp add: upt)
    moreover have "set (map snd ((dst + nat i, prefix_collection ! (r mod m)) # new))
        \<subseteq> (\<lambda>r. prefix_collection ! (r mod m)) ` UNIV"
      using * by auto
    moreover have "length (buf s') = length (buf s)"
      using * by (simp add: s2_def s1_def)
    ultimately show ?thesis by blast
  qed
qed

lemma legacy_prefixes_not_rex:
  "prefix_collection ! (r mod (length prefix_collection - 16)) \<notin> {0x40..0x4F}"
proof -
  have len: "length prefix_collection - 16 = 28" by (simp add: prefix_collection_def)
  have all: "\<forall>v \<in> set (take 28 prefix_collection). v \<notin> {0x40..0x4F}"
    by (simp add: prefix_collection_def)
  have "length (take 28 prefix_collection) = 28" by (simp add: prefix_collection_def)
  then have "take 28 prefix_collection ! (r mod 28) \<in> set (take 28 prefix_collection)"
    by (intro nth_mem) simp
  then have "prefix_collection ! (r mod 28) \<in> set (take 28 prefix_collection)"
    by simp
  with all show ?thesis
    unfolding len by blast
qed


lemma generate_rand_instr_written:
  assumes "length (buf s) = 64" and "stores s = []"
  shows "\<exists>s'. generate_rand_instr is_64bit s = Inr s' \<and> length (buf s') = 64
     \<and> written_upto 64 s'"
proof -
  define r where "r = shd (rng s)"
  define s1 where "s1 = s\<lparr>rng := stl (rng s)\<rparr>"
  define n where "n = num_prefixes_of (int (r mod 254))"
  define m where "m = (if is_64bit then length prefix_collection else length prefix_collection - 16)"
  have rs: "rand s = (r, s1)" by (simp add: rand_def r_def s1_def)
  have n: "0 \<le> n" "n \<le> 15" using num_prefixes_bound [of r] by (simp_all add: n_def)
  have w1: "written_upto (0 + nat 0) s1" using assms by (simp add: written_upto_def s1_def)
  have l1: "0 + nat n \<le> length (buf s1)" using assms n by (simp add: s1_def)
  from prefix_loop_written [OF _ n(1) l1 w1, of m]
  obtain s2 where s2: "prefix_loop m 0 0 n s1 = Inr s2" "written_upto (nat n) s2"
    "length (buf s2) = 64" using assms by (auto simp: s1_def)
  define r' where "r' = shd (rng s2)"
  define s3 where "s3 = s2\<lparr>rng := stl (rng s2)\<rparr>"
  have rs': "rand s2 = (r', s3)" by (simp add: rand_def r'_def s3_def)
  have l3: "nat n + 3 \<le> length (buf s3)" using s2 n by (simp add: s3_def)
  have w3: "written_upto (nat n) s3" using s2 by (simp add: s3_def)
  from escape_case_written [OF l3 w3, of "r' mod 50"]
  obtain k' s4 where s4: "escape_case (r' mod 50) (nat n, s3) = Inr (k', s4)"
    "k' \<le> nat n + 3" "written_upto k' s4" "length (buf s4) = 64"
    using s2 by (auto simp: s3_def)
  have k': "0 \<le> int k'" "int k' \<le> 64" using s4(2) n by simp_all
  have w4: "written_upto (nat (int k')) s4" using s4 by simp
  from tail_fill_written [OF k' _ w4]
  obtain s5 where s5: "tail_fill (int k') s4 = Inr s5" "written_upto 64 s5"
    "length (buf s5) = 64" using s4 by auto
  have gp: "generate_prefix_bytes 0 n is_64bit s1 = Inr s2"
    using s2(1) by (cases is_64bit) (simp_all add: generate_prefix_bytes_def m_def)
  have es: "escape_sequence (nat n, s2) = Inr (k', s4)"
    using rs' s4(1) by (simp add: escape_sequence_def)
  have gen: "generate_rand_instr is_64bit s = Inr s5"
    using rs gp es s5(1)
    by (simp add: generate_rand_instr_def n_def [symmetric])
  with s5 show ?thesis
    by simp
qed

lemma written_upto_all:
  assumes "written_upto 64 s" and "length (buf s) = 64"
  shows "map fst (stores s) = [0..<64]" and "map snd (stores s) = buf s"
proof -
  have st: "stores s = zip [0..<64] (buf s)"
    using assms by (simp add: written_upto_def)
  show "map fst (stores s) = [0..<64]" "map snd (stores s) = buf s"
    unfolding st using assms(2) by simp_all
qed

section \<open>The prefix count\<close>

lemma num_prefixes_eq_iff:
  "num_prefixes_of (int r) = int k \<longleftrightarrow> k * 2 ^ 20 \<le> r ^ 3 \<and> r ^ 3 < (k + 1) * 2 ^ 20"
proof -
  have "r ^ 3 div 2 ^ 20 = k \<longleftrightarrow> k * 2 ^ 20 \<le> r ^ 3 \<and> r ^ 3 < (k + 1) * 2 ^ 20"
    using div_nat_eqI [of k "2 ^ 20" "r ^ 3"]
    by (auto simp: less_mult_imp_div_less div_times_less_eq_dividend dividend_less_div_times)
  then show ?thesis
    by (simp add: num_prefixes_of_nat)
qed

lemma cube_less_iff:
  fixes r hi c :: nat
  assumes "(hi - 1) ^ 3 < c" and "c \<le> hi ^ 3"
  shows "r ^ 3 < c \<longleftrightarrow> r < hi"
proof
  assume "r ^ 3 < c"
  with assms have "r ^ 3 < hi ^ 3" by simp
  then show "r < hi" by (rule power_less_imp_less_base) simp
next
  assume "r < hi"
  then have "r \<le> hi - 1" by simp
  then have "r ^ 3 \<le> (hi - 1) ^ 3" by (rule power_mono) simp
  from this assms(1) show "r ^ 3 < c" by (rule le_less_trans)
qed

lemma length_filter_interval:
  "length (filter (\<lambda>r. lo \<le> r \<and> r < hi) [0..<n]) = min hi n - lo"
  by (induction n) auto

lemma mass_interval:
  assumes "(lo - 1) ^ 3 < k * 2 ^ 20 \<or> (k = 0 \<and> lo = 0)" and "k * 2 ^ 20 \<le> lo ^ 3"
    and "(hi - 1) ^ 3 < (k + 1) * 2 ^ 20" and "(k + 1) * 2 ^ 20 \<le> hi ^ 3"
  shows "prefix_count_mass k = min hi 254 - lo"
proof -
  have lo: "k * 2 ^ 20 \<le> r ^ 3 \<longleftrightarrow> lo \<le> r" for r
  proof (cases "k = 0 \<and> lo = 0")
    case True
    then show ?thesis by simp
  next
    case False
    with assms have "(lo - 1) ^ 3 < k * 2 ^ 20" by blast
    from cube_less_iff [OF this assms(2), of r] show ?thesis by auto
  qed
  have hi: "r ^ 3 < (k + 1) * 2 ^ 20 \<longleftrightarrow> r < hi" for r
    by (rule cube_less_iff [OF assms(3) assms(4)])
  show ?thesis
    unfolding prefix_count_mass_def num_prefixes_eq_iff lo hi
    by (rule length_filter_interval)
qed

lemma masses: "map prefix_count_mass [0..<16] = [102, 26, 19, 15, 12, 11, 10, 9, 8, 7, 7, 7, 6, 6, 6, 3]"
proof -
  have "prefix_count_mass 0 = 102" using mass_interval [of 0 0 102] by simp
  moreover have "prefix_count_mass 1 = 26" using mass_interval [of 102 1 128] by simp
  moreover have "prefix_count_mass 2 = 19" using mass_interval [of 128 2 147] by simp
  moreover have "prefix_count_mass 3 = 15" using mass_interval [of 147 3 162] by simp
  moreover have "prefix_count_mass 4 = 12" using mass_interval [of 162 4 174] by simp
  moreover have "prefix_count_mass 5 = 11" using mass_interval [of 174 5 185] by simp
  moreover have "prefix_count_mass 6 = 10" using mass_interval [of 185 6 195] by simp
  moreover have "prefix_count_mass 7 = 9" using mass_interval [of 195 7 204] by simp
  moreover have "prefix_count_mass 8 = 8" using mass_interval [of 204 8 212] by simp
  moreover have "prefix_count_mass 9 = 7" using mass_interval [of 212 9 219] by simp
  moreover have "prefix_count_mass 10 = 7" using mass_interval [of 219 10 226] by simp
  moreover have "prefix_count_mass 11 = 7" using mass_interval [of 226 11 233] by simp
  moreover have "prefix_count_mass 12 = 6" using mass_interval [of 233 12 239] by simp
  moreover have "prefix_count_mass 13 = 6" using mass_interval [of 239 13 245] by simp
  moreover have "prefix_count_mass 14 = 6" using mass_interval [of 245 14 251] by simp
  moreover have "prefix_count_mass 15 = 3" using mass_interval [of 251 15 256] by simp
  ultimately show ?thesis
    by (simp add: upt_rec eval_nat_numeral)
qed


section \<open>The escape sequences\<close>

lemma emitted_Inr [simp]:
  "emitted s (Inr (k', s')) = Some (map snd (drop (length (stores s)) (stores s')))"
  by (simp add: emitted_def)

lemma escape_bytes_sel:
  assumes "k + 3 \<le> length (buf s)"
  shows "escape_bytes sel k s = Some
    (if sel = 0 then []
     else if sel = 1 then [0x0F, 0x0F]
     else if sel = 2 then [0x0F, 0x38]
     else if sel = 3 then [0x0F, 0x3A]
     else if sel = 4 then [0x0F]
     else if sel \<le> 10 then
       [0x62, ucast (masked_field 0xF7 (word_of_nat (shd (rng s)))),
        ucast (forced_field (word_of_nat (shd (stl (rng s)))))]
     else if sel \<le> 16 then
       [0xC4, ucast (masked_field 0xE3 (word_of_nat (shd (rng s)))),
        ucast (forced_field (word_of_nat (shd (stl (rng s)))))]
     else if sel \<le> 22 then
       [0xC5, ucast (forced_field (word_of_nat (shd (rng s))))]
     else
       [0x8F, ucast (masked_field 0xE3 (word_of_nat (shd (rng s))) XOR 8),
        ucast (forced_field (word_of_nat (shd (stl (rng s)))))])"
proof (cases sel rule: sel_cases)
  case 1
  then show ?thesis by (simp add: escape_bytes_def escape_case_0)
next
  case 2
  then show ?thesis using assms
    by (simp add: escape_bytes_def escape_case_1 [unfolded One_nat_def])
next
  case 3
  then show ?thesis using assms by (simp add: escape_bytes_def escape_case_2)
next
  case 4
  then show ?thesis using assms by (simp add: escape_bytes_def escape_case_3)
next
  case 5
  then show ?thesis using assms by (simp add: escape_bytes_def escape_case_4)
next
  case 6
  then have "sel \<noteq> 0" "sel \<noteq> 1" "sel \<noteq> 2" "sel \<noteq> 3" "sel \<noteq> 4" "sel \<le> 10" by auto
  then show ?thesis using assms 6 
    by (simp add: escape_bytes_def escape_case_evex del: insert_iff)
next
  case 7
  then have "sel \<noteq> 0" "sel \<noteq> 1" "sel \<noteq> 2" "sel \<noteq> 3" "sel \<noteq> 4" "\<not> sel \<le> 10" "sel \<le> 16"
    by auto
  then show ?thesis using assms 7 
    by (simp add: escape_bytes_def escape_case_vex3 del: insert_iff)
next
  case 8
  then have "sel \<noteq> 0" "sel \<noteq> 1" "sel \<noteq> 2" "sel \<noteq> 3" "sel \<noteq> 4" "\<not> sel \<le> 10" "\<not> sel \<le> 16"
    "sel \<le> 22"
    by auto
  then show ?thesis using assms 8 
    by (simp add: escape_bytes_def escape_case_vex2 del: insert_iff)
next
  case 9
  then have "sel \<noteq> 0" "sel \<noteq> 1" "sel \<noteq> 2" "sel \<noteq> 3" "sel \<noteq> 4" "\<not> sel \<le> 10" "\<not> sel \<le> 16"
    "\<not> sel \<le> 22"
    by auto
  then show ?thesis using assms 9 
    by (simp add: escape_bytes_def escape_case_xop del: insert_iff)
qed

lemma escape_class_sel:
  assumes "k + 3 \<le> length (buf s)"
  shows "Option.bind (escape_bytes sel k s) escape_class_of = Some
    (if sel = 0 then No_Escape
     else if sel = 1 then Escape_0F0F
     else if sel = 2 then Escape_0F38
     else if sel = 3 then Escape_0F3A
     else if sel = 4 then Escape_0F
     else if sel \<le> 10 then EVEX
     else if sel \<le> 16 then VEX3
     else if sel \<le> 22 then VEX2
     else XOP)"
  by (simp add: escape_bytes_sel [OF assms])

lemma escape_length_sel:
  assumes "k + 3 \<le> length (buf s)"
  shows "map_option length (escape_bytes sel k s) = Some
    (if sel = 0 then 0
     else if sel = 1 then 2
     else if sel = 2 then 2
     else if sel = 3 then 2
     else if sel = 4 then 1
     else if sel \<le> 10 then 3
     else if sel \<le> 16 then 3
     else if sel \<le> 22 then 2
     else 3)"
  by (simp add: escape_bytes_sel [OF assms])

lemma map_upt_const:
  assumes "\<And>x. a \<le> x \<Longrightarrow> x < b \<Longrightarrow> f x = c"
  shows "map f [a..<b] = replicate (b - a) c"
proof -
  have "map f [a..<b] = map (\<lambda>_. c) [a..<b]"
    by (rule map_cong) (simp_all add: assms)
  then show ?thesis by (simp add: map_replicate_const)
qed

lemma upt_split: "a \<le> b \<Longrightarrow> b \<le> c \<Longrightarrow> [a..<c] = [a..<b] @ [b..<c]"
  using upt_add_eq_append [of a b "c - b"] by simp

lemma selector_ranges:
  "[0..<50] = [0, 1, 2, 3, 4] @ [5..<11] @ [11..<17] @ [17..<23] @ [23..<50]"
proof -
  have "[0..<50] = [0..<5] @ [5..<50]" by (rule upt_split) simp_all
  also have "[5..<50] = [5..<11] @ [11..<50]" by (rule upt_split) simp_all
  also have "[11..<50] = [11..<17] @ [17..<50]" by (rule upt_split) simp_all
  also have "[17..<50] = [17..<23] @ [23..<50]" by (rule upt_split) simp_all
  also have "[0..<5] = [0, 1, 2, 3, 4]" by (simp add: upt_rec)
  finally show ?thesis .
qed

lemma escape_class_map:
  assumes "k + 3 \<le> length (buf s)"
  shows "map (\<lambda>sel. Option.bind (escape_bytes sel k s) escape_class_of) [0..<50] =
        [Some No_Escape, Some Escape_0F0F, Some Escape_0F38, Some Escape_0F3A, Some Escape_0F]
        @ replicate 6 (Some EVEX) @ replicate 6 (Some VEX3) @ replicate 6 (Some VEX2)
        @ replicate 27 (Some XOP)"
proof -
  let ?f = "\<lambda>sel. Option.bind (escape_bytes sel k s) escape_class_of"
  note c = escape_class_sel [OF assms]
  have "map ?f [5..<11] = replicate (11 - 5) (Some EVEX)"
    by (rule map_upt_const) (simp add: c)
  moreover have "map ?f [11..<17] = replicate (17 - 11) (Some VEX3)"
    by (rule map_upt_const) (simp add: c)
  moreover have "map ?f [17..<23] = replicate (23 - 17) (Some VEX2)"
    by (rule map_upt_const) (simp add: c)
  moreover have "map ?f [23..<50] = replicate (50 - 23) (Some XOP)"
    by (rule map_upt_const) (simp add: c)
  moreover have "map ?f [0, 1, 2, 3, 4] =
      [Some No_Escape, Some Escape_0F0F, Some Escape_0F38, Some Escape_0F3A, Some Escape_0F]"
    by (simp add: c)
  ultimately show ?thesis
    unfolding selector_ranges map_append by simp
qed

lemma escape_length_map:
  assumes "k + 3 \<le> length (buf s)"
  shows "map (\<lambda>sel. map_option length (escape_bytes sel k s)) [0..<50] =
        [Some 0, Some 2, Some 2, Some 2, Some 1]
        @ replicate 6 (Some 3) @ replicate 6 (Some 3) @ replicate 6 (Some 2)
        @ replicate 27 (Some 3)"
proof -
  let ?f = "\<lambda>sel. map_option length (escape_bytes sel k s)"
  note c = escape_length_sel [OF assms]
  have "map ?f [5..<11] = replicate (11 - 5) (Some 3)"
    by (rule map_upt_const) (simp add: c)
  moreover have "map ?f [11..<17] = replicate (17 - 11) (Some 3)"
    by (rule map_upt_const) (simp add: c)
  moreover have "map ?f [17..<23] = replicate (23 - 17) (Some 2)"
    by (rule map_upt_const) (simp add: c)
  moreover have "map ?f [23..<50] = replicate (50 - 23) (Some 3)"
    by (rule map_upt_const) (simp add: c)
  moreover have "map ?f [0, 1, 2, 3, 4] = [Some 0, Some 2, Some 2, Some 2, Some 1]"
    by (simp add: c)
  ultimately show ?thesis
    unfolding selector_ranges map_append by simp
qed

lemma ucast_low_byte: "(ucast (rv AND 0xFF :: 32 word) :: byte) = ucast rv"
proof -
  have m: "(0xFF :: 32 word) = mask 8" by (simp add: mask_eq_exp_minus_1)
  show ?thesis unfolding m by (rule bit_word_eqI) (auto simp: bit_simps)
qed

lemma masked_field_byte:
  "(ucast (masked_field m rv) :: byte) = (if rv AND 0x300 \<noteq> 0 then ucast (rv AND m) else ucast rv)"
  by (simp add: masked_field_def ucast_low_byte)

lemma forced_field_byte:
  "(ucast (forced_field rv) :: byte) = (if rv AND 0x300 = 0 then ucast (rv OR 0x78) else ucast rv)"
  by (simp add: forced_field_def)

lemma ucast_xor_8: "(ucast (w XOR 8 :: 32 word) :: byte) = ucast w XOR 8"
proof -
  have "(ucast (w XOR 8) :: byte) = ucast w XOR ucast (8 :: 32 word)"
    by (rule bit_word_eqI) (auto simp: bit_simps)
  then show ?thesis by simp
qed

section \<open>The encoder does not depend on what the buffer held\<close>

lemma agree_store:
  assumes "agree s t"
  shows "rel_sum (=) agree (store i v s) (store i v t)"
  using assms by (simp add: agree_def store_def)

lemma agree_and_then:
  assumes "rel_sum (=) A m m'" and "\<And>x y. A x y \<Longrightarrow> rel_sum (=) B (f x) (g y)"
  shows "rel_sum (=) B (and_then m f) (and_then m' g)"
  using assms by (cases m; cases m') (simp_all add: and_then_def)

lemma agree_emit:
  assumes "fst c = fst d" and "agree (snd c) (snd d)"
  shows "rel_sum (=) (\<lambda>c d. fst c = fst d \<and> agree (snd c) (snd d)) (emit v c) (emit v d)"
proof -
  have "rel_sum (=) agree (store (fst c) v (snd c)) (store (fst c) v (snd d))"
    using assms(2) by (rule agree_store)
  then show ?thesis
    unfolding emit_def assms(1) [symmetric]
    by (cases "store (fst c) v (snd c)"; cases "store (fst c) v (snd d)") simp_all
qed

lemma agree_emit_pair:
  assumes "agree s t"
  shows "rel_sum (=) (\<lambda>c d. fst c = fst d \<and> agree (snd c) (snd d)) (emit v (k, s)) (emit v (k, t))"
  using assms by (intro agree_emit) simp_all

lemma agree_prefix_loop:
  assumes "agree s t"
  shows "rel_sum (=) agree (prefix_loop m dst i n s) (prefix_loop m dst i n t)"
  using assms
proof (induction m dst i n s arbitrary: t rule: prefix_loop.induct)
  case (1 m dst i n s)
  show ?case
  proof (cases "i < n")
    case False
    with "1.prems" show ?thesis
      by (simp add: prefix_loop.simps [of m dst i n])
  next
    case True
    define r where "r = shd (rng s)"
    define s1 where "s1 = s\<lparr>rng := stl (rng s)\<rparr>"
    define t1 where "t1 = t\<lparr>rng := stl (rng t)\<rparr>"
    have rs: "rand s = (r, s1)" by (simp add: rand_def r_def s1_def)
    have rt: "rand t = (r, t1)" using "1.prems" by (simp add: rand_def r_def t1_def agree_def)
    have a1: "agree s1 t1" using "1.prems" by (simp add: agree_def s1_def t1_def)
    let ?v = "prefix_collection ! (r mod m)"
    from agree_store [OF a1, of "dst + nat i" ?v]
    show ?thesis
    proof (cases "store (dst + nat i) ?v s1")
      case (Inl e)
      with agree_store [OF a1, of "dst + nat i" ?v]
      have "store (dst + nat i) ?v t1 = Inl e"
        by (cases "store (dst + nat i) ?v t1") simp_all
      with Inl True rs rt show ?thesis
        by (simp add: prefix_loop.simps [of m dst i n])
    next
      case (Inr s2)
      with agree_store [OF a1, of "dst + nat i" ?v]
      obtain t2 where t2: "store (dst + nat i) ?v t1 = Inr t2" "agree s2 t2"
        by (cases "store (dst + nat i) ?v t1") simp_all
      have "rel_sum (=) agree (prefix_loop m dst (i + 1) n s2) (prefix_loop m dst (i + 1) n t2)"
        using "1.IH" [OF True rs [symmetric] refl Inr t2(2)] .
      with Inr t2 True rs rt show ?thesis
        by (simp add: prefix_loop.simps [of m dst i n])
    qed
  qed
qed

lemma agree_tail_fill:
  assumes "agree s t"
  shows "rel_sum (=) agree (tail_fill i s) (tail_fill i t)"
  using assms
proof (induction i s arbitrary: t rule: tail_fill.induct)
  case (1 i s)
  show ?case
  proof (cases "i < 64")
    case False
    with "1.prems" show ?thesis
      by (simp add: tail_fill.simps [of i])
  next
    case True
    define r where "r = shd (rng s)"
    define s1 where "s1 = s\<lparr>rng := stl (rng s)\<rparr>"
    define t1 where "t1 = t\<lparr>rng := stl (rng t)\<rparr>"
    have rs: "rand s = (r, s1)" by (simp add: rand_def r_def s1_def)
    have rt: "rand t = (r, t1)" using "1.prems" by (simp add: rand_def r_def t1_def agree_def)
    have a1: "agree s1 t1" using "1.prems" by (simp add: agree_def s1_def t1_def)
    let ?v = "word_of_nat (r AND 0xFF) :: byte"
    show ?thesis
    proof (cases "store (nat i) ?v s1")
      case (Inl e)
      with agree_store [OF a1, of "nat i" ?v]
      have "store (nat i) ?v t1 = Inl e"
        by (cases "store (nat i) ?v t1") simp_all
      with Inl True rs rt show ?thesis
        by (simp add: tail_fill.simps [of i])
    next
      case (Inr s2)
      with agree_store [OF a1, of "nat i" ?v]
      obtain t2 where t2: "store (nat i) ?v t1 = Inr t2" "agree s2 t2"
        by (cases "store (nat i) ?v t1") simp_all
      have "rel_sum (=) agree (tail_fill (i + 1) s2) (tail_fill (i + 1) t2)"
        using "1.IH" [OF True rs [symmetric] refl Inr t2(2)] .
      with Inr t2 True rs rt show ?thesis
        by (simp add: tail_fill.simps [of i])
    qed
  qed
qed

lemma agree_rng_update: "agree s t \<Longrightarrow> agree (s\<lparr>rng := r\<rparr>) (t\<lparr>rng := r\<rparr>)"
  by (simp add: agree_def)

lemma agree_draw_emit:
  assumes "fst c = fst d" and "agree (snd c) (snd d)"
  shows "rel_sum (=) (\<lambda>c d. fst c = fst d \<and> agree (snd c) (snd d))
    (let (r, s1) = rand (snd c); rv = word_of_nat r in emit (g rv) (fst c, s1))
    (let (r, s1) = rand (snd d); rv = word_of_nat r in emit (g rv) (fst d, s1))"
proof -
  have r: "rng (snd d) = rng (snd c)" using assms by (simp add: agree_def)
  have "agree ((snd c)\<lparr>rng := stl (rng (snd c))\<rparr>) ((snd d)\<lparr>rng := stl (rng (snd c))\<rparr>)"
    using assms(2) by (rule agree_rng_update)
  then have "rel_sum (=) (\<lambda>c d. fst c = fst d \<and> agree (snd c) (snd d))
      (emit (g (word_of_nat (shd (rng (snd c))))) (fst c, (snd c)\<lparr>rng := stl (rng (snd c))\<rparr>))
      (emit (g (word_of_nat (shd (rng (snd c))))) (fst c, (snd d)\<lparr>rng := stl (rng (snd c))\<rparr>))"
    by (rule agree_emit_pair)
  then show ?thesis
    by (simp add: rand_eq r assms(1) [symmetric])
qed

lemma agree_one:
  assumes "agree s t"
  shows "rel_sum (=) (\<lambda>c d. fst c = fst d \<and> agree (snd c) (snd d))
    (emit a (k, s)) (emit a (k, t))"
  using assms by (rule agree_emit_pair)

lemma agree_two:
  assumes "agree s t"
  shows "rel_sum (=) (\<lambda>c d. fst c = fst d \<and> agree (snd c) (snd d))
    (and_then (emit a (k, s)) (emit b)) (and_then (emit a (k, t)) (emit b))"
  by (rule agree_and_then [OF agree_emit_pair [OF assms]]) (simp add: agree_emit)

lemma agree_vex2_shape:
  assumes "agree s t"
  shows "rel_sum (=) (\<lambda>c d. fst c = fst d \<and> agree (snd c) (snd d))
    (let (r, s1) = rand (snd (k, s)); rv = word_of_nat r in
     and_then (emit a (fst (k, s), s1)) (emit (g rv)))
    (let (r, s1) = rand (snd (k, t)); rv = word_of_nat r in
     and_then (emit a (fst (k, t), s1)) (emit (g rv)))"
proof -
  have r: "rng t = rng s" using assms by (simp add: agree_def)
  have "rel_sum (=) (\<lambda>c d. fst c = fst d \<and> agree (snd c) (snd d))
      (and_then (emit a (k, s\<lparr>rng := stl (rng s)\<rparr>)) (emit (g (word_of_nat (shd (rng s))))))
      (and_then (emit a (k, t\<lparr>rng := stl (rng s)\<rparr>)) (emit (g (word_of_nat (shd (rng s))))))"
    by (rule agree_two [OF agree_rng_update [OF assms]])
  then show ?thesis
    by (simp add: rand_eq r)
qed

lemma agree_three_shape:
  assumes "agree s t"
  shows "rel_sum (=) (\<lambda>c d. fst c = fst d \<and> agree (snd c) (snd d))
    (let (r, s1) = rand (snd (k, s)); rv = word_of_nat r in
     and_then (emit a (fst (k, s), s1)) (\<lambda>c1.
     and_then (emit (f rv) c1) (\<lambda>c2.
     let (r', s2) = rand (snd c2); rv' = word_of_nat r' in
     emit (g rv') (fst c2, s2))))
    (let (r, s1) = rand (snd (k, t)); rv = word_of_nat r in
     and_then (emit a (fst (k, t), s1)) (\<lambda>c1.
     and_then (emit (f rv) c1) (\<lambda>c2.
     let (r', s2) = rand (snd c2); rv' = word_of_nat r' in
     emit (g rv') (fst c2, s2))))"
proof -
  have r: "rng t = rng s" using assms by (simp add: agree_def)
  let ?R = "\<lambda>c d. fst c = fst d \<and> agree (snd c) (snd d)"
  let ?last = "\<lambda>c2. let (r', s2) = rand (snd c2); rv' = word_of_nat r' in
     emit (g rv') (fst c2, s2)"
  have last: "rel_sum (=) ?R (?last c) (?last d)" if "?R c d" for c d
    using that agree_draw_emit [of c d g] by blast
  have mid: "rel_sum (=) ?R (and_then (emit v c) ?last) (and_then (emit v d) ?last)"
    if "?R c d" for c d v
    using that by (intro agree_and_then [where A = ?R] agree_emit last) simp_all
  have "rel_sum (=) ?R
      (and_then (emit a (k, s\<lparr>rng := stl (rng s)\<rparr>))
        (\<lambda>c1. and_then (emit (f (word_of_nat (shd (rng s)))) c1) ?last))
      (and_then (emit a (k, t\<lparr>rng := stl (rng s)\<rparr>))
        (\<lambda>c1. and_then (emit (f (word_of_nat (shd (rng s)))) c1) ?last))"
    by (rule agree_and_then [where A = ?R, OF agree_emit_pair [OF agree_rng_update [OF assms]]])
      (rule mid)
  then show ?thesis
    by (simp add: rand_eq r)
qed

lemma agree_escape_case:
  assumes "agree s t"
  shows "rel_sum (=) (\<lambda>c d. fst c = fst d \<and> agree (snd c) (snd d))
    (escape_case sel (k, s)) (escape_case sel (k, t))"
proof (cases sel rule: sel_cases)
  case 1
  then show ?thesis using assms by (simp add: escape_case_def)
next
  case 2
  then show ?thesis using agree_two [OF assms] by (simp add: escape_case_def)
next
  case 3
  then show ?thesis using agree_two [OF assms] by (simp add: escape_case_def)
next
  case 4
  then show ?thesis using agree_two [OF assms] by (simp add: escape_case_def)
next
  case 5
  then show ?thesis using agree_one [OF assms] by (simp add: escape_case_def)
next
  case 6
  then have c: "(sel = 0) = False" "(sel = 1) = False" "(sel = 2) = False" "(sel = 3) = False"
    "(sel = 4) = False" by auto
  have d: "(sel \<in> {5, 6, 7, 8, 9, 10}) = True" using 6 by simp
  show ?thesis
    unfolding escape_case_def c d if_False if_True
    by (rule agree_three_shape [OF assms])
next
  case 7
  then have c: "(sel = 0) = False" "(sel = 1) = False" "(sel = 2) = False" "(sel = 3) = False"
    "(sel = 4) = False" "(sel \<in> {5, 6, 7, 8, 9, 10}) = False" by auto
  have d: "(sel \<in> {11, 12, 13, 14, 15, 16}) = True" using 7 by simp
  show ?thesis
    unfolding escape_case_def c d if_False if_True
    by (rule agree_three_shape [OF assms])
next
  case 8
  then have c: "(sel = 0) = False" "(sel = 1) = False" "(sel = 2) = False" "(sel = 3) = False"
    "(sel = 4) = False" "(sel \<in> {5, 6, 7, 8, 9, 10}) = False"
    "(sel \<in> {11, 12, 13, 14, 15, 16}) = False" by auto
  have d: "(sel \<in> {17, 18, 19, 20, 21, 22}) = True" using 8 by simp
  show ?thesis
    unfolding escape_case_def c d if_False if_True
    by (rule agree_vex2_shape [OF assms])
next
  case 9
  then have c: "(sel = 0) = False" "(sel = 1) = False" "(sel = 2) = False" "(sel = 3) = False"
    "(sel = 4) = False" "(sel \<in> {5, 6, 7, 8, 9, 10}) = False"
    "(sel \<in> {11, 12, 13, 14, 15, 16}) = False" "(sel \<in> {17, 18, 19, 20, 21, 22}) = False"
    by auto
  show ?thesis
    unfolding escape_case_def c if_False if_True
    by (rule agree_three_shape [OF assms])
qed

section \<open>Formatting and the fault handler\<close>





lemma printf_simps [simp]:
  "instr_buf (printf t p) = instr_buf p"
  "machine_mode_int (printf t p) = machine_mode_int p"
  "machine_mode_str (printf t p) = machine_mode_str p"
  "decoder_calls (printf t p) = decoder_calls p"
  "rand_state (printf t p) = rand_state p"
  "stdout_written (printf t p) = stdout_written p"
  "stdout_buffered (printf t p) = stdout_buffered p @ t"
  by (simp_all add: printf_def)

lemma printf_printf: "printf t (printf u p) = printf (u @ t) p"
  by (simp add: printf_def)

lemma print_instr_buf_eq:
  assumes "0 \<le> i" and "i \<le> 16"
  shows "print_instr_buf i p =
    printf (concat (map (\<lambda>j. fmt_02X (unat (instr_buf p ! j)) @ '' '') [nat i..<16])) p"
  using assms
proof (induction i p rule: print_instr_buf.induct)
  case (1 i p)
  show ?case
  proof (cases "i < 16")
    case False
    with "1.prems" have "i = 16" by simp
    then show ?thesis by (simp add: print_instr_buf.simps [of 16] printf_def)
  next
    case True
    have upt: "[nat i..<16] = nat i # [nat (i + 1)..<16]"
      using True "1.prems" by (simp add: upt_conv_Cons nat_add_distrib)
    have "print_instr_buf i p =
        print_instr_buf (i + 1) (printf (fmt_02X (unat (instr_buf p ! nat i)) @ '' '') p)"
      using True by (simp add: print_instr_buf.simps [of i p])
    also have "\<dots> = printf (concat (map (\<lambda>j. fmt_02X (unat (instr_buf p ! j)) @ '' '')
          [nat (i + 1)..<16])) (printf (fmt_02X (unat (instr_buf p ! nat i)) @ '' '') p)"
      using "1.IH" [OF True] True "1.prems" by simp
    finally show ?thesis
      by (simp add: printf_printf upt)
  qed
qed

lemma print_instr_buf_all:
  assumes "length (instr_buf p) = 16"
  shows "print_instr_buf 0 p =
    printf (concat (map (\<lambda>b. fmt_02X (unat b) @ '' '') (instr_buf p))) p"
proof -
  have "map (\<lambda>j. fmt_02X (unat (instr_buf p ! j)) @ '' '') [0..<16]
      = map (\<lambda>b. fmt_02X (unat b) @ '' '') (map ((!) (instr_buf p)) [0..<length (instr_buf p)])"
    by (simp add: assms)
  also have "\<dots> = map (\<lambda>b. fmt_02X (unat b) @ '' '') (instr_buf p)"
    by (simp only: map_nth)
  finally show ?thesis
    by (simp add: print_instr_buf_eq)
qed

lemma sigabrt_handler_eq:
  assumes "machine_mode_str p = Some label" and "length (instr_buf p) = 16"
  shows "sigabrt_handler sig p = Terminated EXIT_FAILURE
    (p\<lparr>stdout_buffered := [],
       stdout_written := stdout_written p @ stdout_buffered p @ fault_report sig p label\<rparr>)"
proof -
  define p3 where "p3 = printf (''Opcode at time of '' @ signal_name sig @ '':\<newline>'')
    (printf (''Machine mode: '' @ fmt_d (machine_mode_int p) @ '' ('' @ label @ '')\<newline>'')
      (printf ''\<newline>'' p))"
  have len: "length (instr_buf p3) = 16" using assms by (simp add: p3_def)
  have "sigabrt_handler sig p =
    exit_with EXIT_FAILURE (fflush_stdout (printf ''\<newline>'' (print_instr_buf 0 p3)))"
    using assms by (simp add: sigabrt_handler_def p3_def signal_name_def Let_def)
  also have "\<dots> = Terminated EXIT_FAILURE
    (p\<lparr>stdout_buffered := [],
       stdout_written := stdout_written p @ stdout_buffered p @ fault_report sig p label\<rparr>)"
    unfolding print_instr_buf_all [OF len]
    by (simp add: p3_def exit_with_def fflush_stdout_def printf_def fault_report_def)
  finally show ?thesis .
qed











section \<open>The wrapper and the main loop\<close>

lemma deliver_at_call:
  assumes "16 \<le> length buffer"
  shows "deliver sig (at_call E decoder buffer len p) =
    fault_outcome sig (at_call E decoder buffer len p)"
proof -
  let ?q = "at_call E decoder buffer len p"
  have l: "machine_mode_str ?q = Some (machine_mode_label E (machine_mode decoder))"
    by (simp add: at_call_def)
  have n: "length (instr_buf ?q) = 16" using assms by (simp add: at_call_def)
  have h: "sigabrt_handler sig ?q = Terminated EXIT_FAILURE (after_fault sig ?q)"
    unfolding sigabrt_handler_eq [OF l n] after_fault_def l by simp
  show ?thesis
    by (simp add: deliver_def fault_outcome_def h split: disposition.split)
qed

lemma wrapped_eq:
  assumes "16 \<le> length buffer"
  shows "wrapped_ZydisDecoderDecodeBuffer E decoder buffer len p =
    (case ZydisDecoderDecodeBuffer E (at_call E decoder buffer len p) decoder buffer len of
       Returned status \<Rightarrow> Running status (at_call E decoder buffer len p)
     | Faulted sig \<Rightarrow> fault_outcome sig (at_call E decoder buffer len p))"
proof -
  let ?q = "at_call E decoder buffer len p"
  have "wrapped_ZydisDecoderDecodeBuffer E decoder buffer len p =
    (case ZydisDecoderDecodeBuffer E ?q decoder buffer len of
       Returned status \<Rightarrow> Running status ?q
     | Faulted sig \<Rightarrow> deliver sig ?q)"
    using assms
    by (simp add: wrapped_ZydisDecoderDecodeBuffer_def at_call_def Let_def
        cong: decode_result.case_cong)
  then show ?thesis
    by (simp add: deliver_at_call [OF assms] split: decode_result.split)
qed

lemma fault_outcome_process:
  "outcome_process (fault_outcome sig q) =
     Some (case install_sigabrt_handler sig of
             Handler \<Rightarrow> after_fault sig q
           | Default_Action \<Rightarrow> q)"
  by (simp add: fault_outcome_def outcome_process_def split: disposition.split)

lemma fault_outcome_passed_on:
  "(case fault_outcome sig q of
      Running status p2 \<Rightarrow> f status p2
    | Terminated st p2 \<Rightarrow> Terminated st p2
    | Killed s p2 \<Rightarrow> Killed s p2
    | Undefined_Behaviour e \<Rightarrow> Undefined_Behaviour e) = fault_outcome sig q"
  by (simp add: fault_outcome_def split: disposition.split)

lemma after_fault_simps [simp]:
  "instr_buf (after_fault sig p) = instr_buf p"
  "machine_mode_int (after_fault sig p) = machine_mode_int p"
  "machine_mode_str (after_fault sig p) = machine_mode_str p"
  "decoder_calls (after_fault sig p) = decoder_calls p"
  "rand_state (after_fault sig p) = rand_state p"
  by (simp_all add: after_fault_def)

lemma and_3_cases: "(r::nat) AND 3 = 0 \<or> r AND 3 = 1 \<or> r AND 3 = 2 \<or> r AND 3 = 3"
proof -
  have m: "(3::nat) = mask 2" by (simp add: mask_eq_exp_minus_1)
  have "r AND mask 2 = r mod 2 ^ 2"
    by (simp only: take_bit_eq_mask [symmetric] take_bit_eq_mod)
  then have "r AND 3 = r mod 4"
    unfolding m [symmetric] by simp
  moreover have "r mod 4 < 4" by simp
  ultimately show ?thesis by arith
qed

lemma select_decoder_Some: "\<exists>bits v. select_decoder (r AND 3) = Some (bits, v)"
  using and_3_cases [of r] by (auto simp: select_decoder_def)

lemma and_3_mod: "(r::nat) AND 3 = r mod 4"
proof -
  have m: "(3::nat) = mask 2" by (simp add: mask_eq_exp_minus_1)
  have "r AND mask 2 = r mod 2 ^ 2"
    by (simp only: take_bit_eq_mask [symmetric] take_bit_eq_mod)
  then show ?thesis
    unfolding m [symmetric] by simp
qed

lemma selection_count_quarter: "selection_count v (4 * m) = m"
proof (induction m)
  case 0
  show ?case by (simp add: selection_count_def)
next
  case (Suc m)
  have e: "4 * Suc m = 4 * m + 4" by simp
  have "[0..<4 * m + 4] = [0..<4 * m] @ [4 * m..<4 * m + 4]"
    by (rule upt_split) simp_all
  also have "[4 * m..<4 * m + 4] = [4 * m, 4 * m + 1, 4 * m + 2, 4 * m + 3]"
    by (simp add: upt_rec [of "4 * m"] upt_rec [of "Suc (4 * m)"]
        upt_rec [of "Suc (Suc (4 * m))"] upt_rec [of "Suc (Suc (Suc (4 * m)))"])
  finally have r: "[0..<4 * Suc m] = [0..<4 * m] @ [4 * m, 4 * m + 1, 4 * m + 2, 4 * m + 3]"
    unfolding e .
  have md: "(4 * m) mod 4 = 0" "(4 * m + 1) mod 4 = 1" "(4 * m + 2) mod 4 = 2"
    "(4 * m + 3) mod 4 = 3"
    by presburger+
  have s: "select_decoder ((4 * m) AND 3) = Some (16, decoder_x86_16)"
    "select_decoder ((4 * m + 1) AND 3) = Some (32, decoder_x86_32)"
    "select_decoder ((4 * m + 2) AND 3) = Some (64, decoder_x86_64_intel)"
    "select_decoder ((4 * m + 3) AND 3) = Some (64, decoder_x86_64_amd)"
    unfolding and_3_mod md by (simp_all add: select_decoder_def)
  have "selection_count v (4 * Suc m) = selection_count v (4 * m) + 1"
    unfolding selection_count_def r
    by (cases v) (simp_all add: s [simplified])
  with Suc show ?case by simp
qed

lemma selected_width:
  assumes "select_decoder sel = Some (bits, v)"
  shows "(bits = 64) = (v = decoder_x86_64_intel \<or> v = decoder_x86_64_amd)"
    and "(bits = 64) = (address_width (decoder_object E v) = ZYDIS_ADDRESS_WIDTH_64)"
  using assms
  by (auto simp: select_decoder_def decoder_object_def ZydisDecoderInit_def
      ZydisDecoderEnableMode_def split: if_splits)

lemma print_breadcrumbs_simps [simp]:
  "instr_buf (print_breadcrumbs k p) = instr_buf p"
  "machine_mode_int (print_breadcrumbs k p) = machine_mode_int p"
  "machine_mode_str (print_breadcrumbs k p) = machine_mode_str p"
  "decoder_calls (print_breadcrumbs k p) = decoder_calls p"
  "rand_state (print_breadcrumbs k p) = rand_state p"
  by (simp_all add: print_breadcrumbs_def fflush_stdout_def printf_def Let_def)

lemma at_call_simps [simp]:
  "rand_state (at_call E d b l p) = rand_state p"
  "decoder_calls (at_call E d b l p) = decoder_calls p @
     [\<lparr>seen_instr_buf = take 16 b, seen_machine_mode_int = machine_mode d,
       seen_machine_mode_str = Some (machine_mode_label E (machine_mode d)),
       call_decoder = d, call_buffer = b, call_length = l\<rparr>]"
  by (simp_all add: at_call_def)

lemma submissions_of_simps [simp]:
  "submissions_of (at_call E d b l p) = submissions_of p @ [(d, b)]"
  "submissions_of (after_fault sig p) = submissions_of p"
  "submissions_of (print_breadcrumbs k p) = submissions_of p"
  "submissions_of (p\<lparr>rand_state := r\<rparr>) = submissions_of p"
  "submissions_of (fflush_stdout p) = submissions_of p"
  by (simp_all add: submissions_of_def fflush_stdout_def)

lemma main_loop_step:
  assumes "i < n"
  shows "\<exists>bits v g. select_decoder (shd (rand_state p) AND 3) = Some (bits, v)
    \<and> generate_rand_instr (bits = 64)
        \<lparr>buf = map (stack_bytes E i) [0..<64], rng = stl (rand_state p), stores = []\<rparr> = Inr g
    \<and> length (buf g) = 64 \<and> written_upto 64 g
    \<and> main_loop E i n p =
       (case ZydisDecoderDecodeBuffer E
               (at_call E (decoder_object E v) (buf g) 64 (p\<lparr>rand_state := rng g\<rparr>))
               (decoder_object E v) (buf g) 64 of
          Returned status \<Rightarrow>
            main_loop E (i + 1) n (print_breadcrumbs (i + 1)
              (at_call E (decoder_object E v) (buf g) 64 (p\<lparr>rand_state := rng g\<rparr>)))
        | Faulted sig \<Rightarrow>
            fault_outcome sig
              (at_call E (decoder_object E v) (buf g) 64 (p\<lparr>rand_state := rng g\<rparr>)))"
proof -
  obtain bits v where sel: "select_decoder (shd (rand_state p) AND 3) = Some (bits, v)"
    using select_decoder_Some by blast
  let ?s = "\<lparr>buf = map (stack_bytes E i) [0..<64], rng = stl (rand_state p), stores = []\<rparr>"
  have "length (buf ?s) = 64" "stores ?s = []" by simp_all
  from generate_rand_instr_written [OF this, of "bits = 64"]
  obtain g where g: "generate_rand_instr (bits = 64) ?s = Inr g" "length (buf g) = 64"
    "written_upto 64 g" by blast
  have len: "16 \<le> length (buf g)" using g(2) by simp
  let ?q = "at_call E (decoder_object E v) (buf g) 64 (p\<lparr>rand_state := rng g\<rparr>)"
  have "main_loop E i n p =
       (case ZydisDecoderDecodeBuffer E ?q (decoder_object E v) (buf g) 64 of
          Returned status \<Rightarrow> main_loop E (i + 1) n (print_breadcrumbs (i + 1) ?q)
        | Faulted sig \<Rightarrow> fault_outcome sig ?q)"
    using assms sel g(1)
    by (simp add: main_loop.simps [of E i n p] Let_def wrapped_eq [OF len]
        fault_outcome_passed_on split: decode_result.split)
  with sel g show ?thesis by blast
qed

lemma main_loop_done:
  assumes "\<not> i < n"
  shows "main_loop E i n p = Terminated EXIT_SUCCESS (fflush_stdout p)"
  using assms by (simp add: main_loop.simps [of E i n p] exit_with_def)

lemma generate_rand_instr_agree:
  assumes "agree s t"
  shows "rel_sum (=) agree (generate_rand_instr b s) (generate_rand_instr b t)"
proof -
  have r: "rng t = rng s" using assms by (simp add: agree_def)
  let ?n = "num_prefixes_of (int (shd (rng s) mod 254))"
  have a1: "agree (s\<lparr>rng := stl (rng s)\<rparr>) (t\<lparr>rng := stl (rng s)\<rparr>)"
    using assms by (rule agree_rng_update)
  have pre: "rel_sum (=) agree (generate_prefix_bytes 0 ?n b (s\<lparr>rng := stl (rng s)\<rparr>))
      (generate_prefix_bytes 0 ?n b (t\<lparr>rng := stl (rng s)\<rparr>))"
    unfolding generate_prefix_bytes_def using agree_prefix_loop [OF a1] by simp
  have esc: "rel_sum (=) (\<lambda>c d. fst c = fst d \<and> agree (snd c) (snd d))
      (escape_sequence (k, x)) (escape_sequence (k, y))" if "agree x y" for k x y
  proof -
    have "rng y = rng x" using that by (simp add: agree_def)
    then show ?thesis
      using agree_escape_case [OF agree_rng_update [OF that], of "shd (rng x) mod 50" k "stl (rng x)"]
      by (simp add: escape_sequence_def rand_eq)
  qed
  have tail: "rel_sum (=) agree (tail_fill (int (fst c)) (snd c)) (tail_fill (int (fst d)) (snd d))"
    if "fst c = fst d \<and> agree (snd c) (snd d)" for c d
    using that agree_tail_fill [of "snd c" "snd d" "int (fst c)"] by simp
  have rest: "rel_sum (=) agree
      (and_then (escape_sequence (nat ?n, x)) (\<lambda>c. tail_fill (int (fst c)) (snd c)))
      (and_then (escape_sequence (nat ?n, y)) (\<lambda>c. tail_fill (int (fst c)) (snd c)))"
    if "agree x y" for x y
    by (rule agree_and_then [OF esc [OF that]]) (rule tail)
  have "rel_sum (=) agree
      (and_then (generate_prefix_bytes 0 ?n b (s\<lparr>rng := stl (rng s)\<rparr>)) (\<lambda>s2.
         and_then (escape_sequence (nat ?n, s2)) (\<lambda>c. tail_fill (int (fst c)) (snd c))))
      (and_then (generate_prefix_bytes 0 ?n b (t\<lparr>rng := stl (rng s)\<rparr>)) (\<lambda>s2.
         and_then (escape_sequence (nat ?n, s2)) (\<lambda>c. tail_fill (int (fst c)) (snd c))))"
    by (rule agree_and_then [OF pre]) (rule rest)
  then show ?thesis
    by (simp add: generate_rand_instr_def rand_eq r Let_def)
qed

lemma generate_rand_instr_independent:
  assumes "length (buf s) = 64" and "stores s = []"
    and "length (buf t) = 64" and "stores t = []" and "rng s = rng t"
    and "generate_rand_instr b s = Inr g" and "generate_rand_instr b t = Inr g'"
  shows "buf g = buf g' \<and> rng g = rng g'"
proof -
  have "agree s t" using assms by (simp add: agree_def)
  from generate_rand_instr_agree [OF this, of b] assms(6,7)
  have a: "agree g g'" by simp
  from generate_rand_instr_written [OF assms(1,2), of b] assms(6)
  have g: "written_upto 64 g" "length (buf g) = 64" by auto
  from generate_rand_instr_written [OF assms(3,4), of b] assms(7)
  have g': "written_upto 64 g'" "length (buf g') = 64" by auto
  have "buf g = map snd (stores g)" using written_upto_all(2) [OF g] by simp
  also have "\<dots> = map snd (stores g')" using a by (simp add: agree_def)
  also have "\<dots> = buf g'" using written_upto_all(2) [OF g'] by simp
  finally show ?thesis using a by (simp add: agree_def)
qed

lemma submissions_Terminated [simp]: "submissions (Terminated st q) = submissions_of q"
  by (simp add: submissions_def outcome_process_def)

lemma finished_Terminated [simp]: "finished (Terminated st q) = (st = EXIT_SUCCESS)"
  by (simp add: finished_def)

lemma fault_outcome_simps [simp]:
  "submissions (fault_outcome sig q) = submissions_of q"
  "finished (fault_outcome sig q) = False"
  by (simp_all add: fault_outcome_def submissions_def outcome_process_def finished_def
      split: disposition.split)

lemma main_loop_result:
  "\<exists>q. outcome_process (main_loop E i n p) = Some q
     \<and> prefix (submissions_of p) (submissions_of q)
     \<and> (finished (main_loop E i n p)
          \<longrightarrow> length (submissions_of q) = length (submissions_of p) + nat (n - i))"
proof (induction E i n p rule: main_loop.induct)
  case (1 E i n p)
  show ?case
  proof (cases "i < n")
    case False
    then show ?thesis by (simp add: main_loop_done outcome_process_def)
  next
    case True
    from main_loop_step [OF True, of p E]
    obtain bits v g where step:
      "select_decoder (shd (rand_state p) AND 3) = Some (bits, v)"
      "generate_rand_instr (bits = 64)
        \<lparr>buf = map (stack_bytes E i) [0..<64], rng = stl (rand_state p), stores = []\<rparr> = Inr g"
      "main_loop E i n p =
       (case ZydisDecoderDecodeBuffer E
               (at_call E (decoder_object E v) (buf g) 64 (p\<lparr>rand_state := rng g\<rparr>))
               (decoder_object E v) (buf g) 64 of
          Returned status \<Rightarrow>
            main_loop E (i + 1) n (print_breadcrumbs (i + 1)
              (at_call E (decoder_object E v) (buf g) 64 (p\<lparr>rand_state := rng g\<rparr>)))
        | Faulted sig \<Rightarrow>
            fault_outcome sig
              (at_call E (decoder_object E v) (buf g) 64 (p\<lparr>rand_state := rng g\<rparr>)))"
      by blast
    let ?q = "at_call E (decoder_object E v) (buf g) 64 (p\<lparr>rand_state := rng g\<rparr>)"
    show ?thesis
    proof (cases "ZydisDecoderDecodeBuffer E ?q (decoder_object E v) (buf g) 64")
      case (Faulted sig)
      then show ?thesis
        by (simp add: step(3) fault_outcome_process split: disposition.split)
    next
      case (Returned status)
      have w: "wrapped_ZydisDecoderDecodeBuffer E (decoder_object E v) (buf g) 64
          (p\<lparr>rand_state := stl (rand_state p)\<rparr>\<lparr>rand_state := rng g\<rparr>) = Running status ?q"
      proof -
        from generate_rand_instr_written [of "\<lparr>buf = map (stack_bytes E i) [0..<64],
            rng = stl (rand_state p), stores = []\<rparr>" "bits = 64"] step(2)
        have "16 \<le> length (buf g)" by auto
        from wrapped_eq [OF this] Returned show ?thesis by simp
      qed
      have g2: "generate_rand_instr (bits = 64)
          \<lparr>buf = map (stack_bytes E i) [0..<64],
            rng = rand_state (p\<lparr>rand_state := stl (rand_state p)\<rparr>), stores = []\<rparr> = Inr g"
        using step(2) by simp
      from "1.IH" [OF True refl refl step(1) refl g2 w, simplified]
      obtain q where *:
        "outcome_process (main_loop E (i + 1) n (print_breadcrumbs (i + 1) ?q)) = Some q"
        "prefix (submissions_of p @ [(decoder_object E v, buf g)]) (submissions_of q)"
        "finished (main_loop E (i + 1) n (print_breadcrumbs (i + 1) ?q))
           \<longrightarrow> length (submissions_of q)
             = Suc (length (submissions_of p) + nat (n - (i + 1)))"
        by auto
      have "prefix (submissions_of p) (submissions_of q)"
        using *(2) by (rule append_prefixD)
      moreover have "Suc (nat (n - (i + 1))) = nat (n - i)" using True by simp
      ultimately show ?thesis
        using * Returned by (auto simp: step(3))
    qed
  qed
qed

lemma main_loop_extends: "prefix (submissions_of p) (submissions (main_loop E i n p))"
  using main_loop_result [of E i n p] by (auto simp: submissions_def)

lemma main_loop_two_runs:
  assumes "decoder_object E2 = decoder_object E1"
    and "rand_state p1 = rand_state p2" and "submissions_of p1 = submissions_of p2"
  shows "(prefix (submissions (main_loop E1 i n p1)) (submissions (main_loop E2 i n p2))
       \<or> prefix (submissions (main_loop E2 i n p2)) (submissions (main_loop E1 i n p1)))
    \<and> (finished (main_loop E1 i n p1) \<and> finished (main_loop E2 i n p2)
         \<longrightarrow> submissions (main_loop E1 i n p1) = submissions (main_loop E2 i n p2))"
  using assms
proof (induction E1 i n p1 arbitrary: p2 rule: main_loop.induct)
  case (1 E1 i n p1)
  note dec = "1.prems"(1)
  show ?case
  proof (cases "i < n")
    case False
    with "1.prems" show ?thesis by (simp add: main_loop_done)
  next
    case True
    from main_loop_step [OF True, of p1 E1]
    obtain bits v g1 where s1:
      "select_decoder (shd (rand_state p1) AND 3) = Some (bits, v)"
      "generate_rand_instr (bits = 64)
        \<lparr>buf = map (stack_bytes E1 i) [0..<64], rng = stl (rand_state p1), stores = []\<rparr> = Inr g1"
      "length (buf g1) = 64"
      "main_loop E1 i n p1 =
       (case ZydisDecoderDecodeBuffer E1
               (at_call E1 (decoder_object E1 v) (buf g1) 64 (p1\<lparr>rand_state := rng g1\<rparr>))
               (decoder_object E1 v) (buf g1) 64 of
          Returned status \<Rightarrow>
            main_loop E1 (i + 1) n (print_breadcrumbs (i + 1)
              (at_call E1 (decoder_object E1 v) (buf g1) 64 (p1\<lparr>rand_state := rng g1\<rparr>)))
        | Faulted sig \<Rightarrow>
            fault_outcome sig
              (at_call E1 (decoder_object E1 v) (buf g1) 64 (p1\<lparr>rand_state := rng g1\<rparr>)))"
      by blast
    from main_loop_step [OF True, of p2 E2]
    obtain bits' v' g2 where t:
      "select_decoder (shd (rand_state p2) AND 3) = Some (bits', v')"
      "generate_rand_instr (bits' = 64)
        \<lparr>buf = map (stack_bytes E2 i) [0..<64], rng = stl (rand_state p2), stores = []\<rparr> = Inr g2"
      "main_loop E2 i n p2 =
       (case ZydisDecoderDecodeBuffer E2
               (at_call E2 (decoder_object E2 v') (buf g2) 64 (p2\<lparr>rand_state := rng g2\<rparr>))
               (decoder_object E2 v') (buf g2) 64 of
          Returned status \<Rightarrow>
            main_loop E2 (i + 1) n (print_breadcrumbs (i + 1)
              (at_call E2 (decoder_object E2 v') (buf g2) 64 (p2\<lparr>rand_state := rng g2\<rparr>)))
        | Faulted sig \<Rightarrow>
            fault_outcome sig
              (at_call E2 (decoder_object E2 v') (buf g2) 64 (p2\<lparr>rand_state := rng g2\<rparr>)))"
      by blast
    have same: "bits' = bits" "v' = v"
      using s1(1) t(1) "1.prems"(2) by simp_all
    note s2 = t(2,3) [unfolded same dec "1.prems"(2) [symmetric]]
    have "buf g1 = buf g2 \<and> rng g1 = rng g2"
      by (rule generate_rand_instr_independent [OF _ _ _ _ _ s1(2) s2(1)]) simp_all
    then have eq: "buf g2 = buf g1" "rng g2 = rng g1" by simp_all
    note s2 = s2 [unfolded eq]
    let ?d = "decoder_object E1 v"
    let ?q1 = "at_call E1 ?d (buf g1) 64 (p1\<lparr>rand_state := rng g1\<rparr>)"
    let ?q2 = "at_call E2 ?d (buf g1) 64 (p2\<lparr>rand_state := rng g1\<rparr>)"
    have subs: "submissions_of ?q1 = submissions_of ?q2"
      using "1.prems"(3) by simp
    show ?thesis
    proof (cases "ZydisDecoderDecodeBuffer E1 ?q1 ?d (buf g1) 64")
      case F1: (Faulted sig1)
      then have r1: "main_loop E1 i n p1 = fault_outcome sig1 ?q1"
        by (simp add: s1(4))
      show ?thesis
      proof (cases "ZydisDecoderDecodeBuffer E2 ?q2 ?d (buf g1) 64")
        case (Faulted sig2)
        have "main_loop E2 i n p2 = fault_outcome sig2 ?q2"
          unfolding s2(2) Faulted by simp
        with r1 subs show ?thesis by simp
      next
        case (Returned status)
        have "main_loop E2 i n p2 = main_loop E2 (i + 1) n (print_breadcrumbs (i + 1) ?q2)"
          unfolding s2(2) Returned by simp
        moreover have "prefix (submissions_of (print_breadcrumbs (i + 1) ?q2))
            (submissions (main_loop E2 (i + 1) n (print_breadcrumbs (i + 1) ?q2)))"
          by (rule main_loop_extends)
        ultimately show ?thesis using r1 subs by simp
      qed
    next
      case R1: (Returned status1)
      then have r1: "main_loop E1 i n p1 = main_loop E1 (i + 1) n (print_breadcrumbs (i + 1) ?q1)"
        by (simp add: s1(4))
      show ?thesis
      proof (cases "ZydisDecoderDecodeBuffer E2 ?q2 ?d (buf g1) 64")
        case (Faulted sig2)
        have "main_loop E2 i n p2 = fault_outcome sig2 ?q2"
          unfolding s2(2) Faulted by simp
        moreover have "prefix (submissions_of (print_breadcrumbs (i + 1) ?q1))
            (submissions (main_loop E1 (i + 1) n (print_breadcrumbs (i + 1) ?q1)))"
          by (rule main_loop_extends)
        moreover have "\<not> finished (fault_outcome sig2 ?q2 :: unit outcome)"
          by simp
        ultimately show ?thesis using r1 subs by simp
      next
        case (Returned status2)
        have r2: "main_loop E2 i n p2
            = main_loop E2 (i + 1) n (print_breadcrumbs (i + 1) ?q2)"
          unfolding s2(2) Returned by simp
        have g: "generate_rand_instr (bits = 64)
            \<lparr>buf = map (stack_bytes E1 i) [0..<64],
              rng = rand_state (p1\<lparr>rand_state := stl (rand_state p1)\<rparr>), stores = []\<rparr> = Inr g1"
          using s1(2) by simp
        have w: "wrapped_ZydisDecoderDecodeBuffer E1 ?d (buf g1) 64
            (p1\<lparr>rand_state := stl (rand_state p1)\<rparr>\<lparr>rand_state := rng g1\<rparr>)
            = Running status1 ?q1"
        proof -
          have "16 \<le> length (buf g1)" using s1(3) by simp
          from wrapped_eq [OF this] R1 show ?thesis by simp
        qed
        have "rand_state (print_breadcrumbs (i + 1) ?q1)
            = rand_state (print_breadcrumbs (i + 1) ?q2)"
          by simp
        moreover have "submissions_of (print_breadcrumbs (i + 1) ?q1)
            = submissions_of (print_breadcrumbs (i + 1) ?q2)"
          using subs by simp
        ultimately show ?thesis
          unfolding r1 r2 by (rule "1.IH" [OF True refl refl s1(1) refl g w dec])
      qed
    qed
  qed
qed

lemma main_loop_finishes:
  assumes "\<And>q d b l. \<exists>status. ZydisDecoderDecodeBuffer E q d b l = Returned status"
  shows "finished (main_loop E i n p)"
  using assms
proof (induction E i n p rule: main_loop.induct)
  case (1 E i n p)
  show ?case
  proof (cases "i < n")
    case False
    then show ?thesis by (simp add: main_loop_done)
  next
    case True
    from main_loop_step [OF True, of p E]
    obtain bits v g where step:
      "select_decoder (shd (rand_state p) AND 3) = Some (bits, v)"
      "generate_rand_instr (bits = 64)
        \<lparr>buf = map (stack_bytes E i) [0..<64], rng = stl (rand_state p), stores = []\<rparr> = Inr g"
      "length (buf g) = 64"
      "main_loop E i n p =
       (case ZydisDecoderDecodeBuffer E
               (at_call E (decoder_object E v) (buf g) 64 (p\<lparr>rand_state := rng g\<rparr>))
               (decoder_object E v) (buf g) 64 of
          Returned status \<Rightarrow>
            main_loop E (i + 1) n (print_breadcrumbs (i + 1)
              (at_call E (decoder_object E v) (buf g) 64 (p\<lparr>rand_state := rng g\<rparr>)))
        | Faulted sig \<Rightarrow>
            fault_outcome sig
              (at_call E (decoder_object E v) (buf g) 64 (p\<lparr>rand_state := rng g\<rparr>)))"
      by blast
    let ?q = "at_call E (decoder_object E v) (buf g) 64 (p\<lparr>rand_state := rng g\<rparr>)"
    from "1.prems" [of ?q "decoder_object E v" "buf g" 64]
    obtain status where R: "ZydisDecoderDecodeBuffer E ?q (decoder_object E v) (buf g) 64
        = Returned status" by blast
    have g2: "generate_rand_instr (bits = 64)
        \<lparr>buf = map (stack_bytes E i) [0..<64],
          rng = rand_state (p\<lparr>rand_state := stl (rand_state p)\<rparr>), stores = []\<rparr> = Inr g"
      using step(2) by simp
    have w: "wrapped_ZydisDecoderDecodeBuffer E (decoder_object E v) (buf g) 64
        (p\<lparr>rand_state := stl (rand_state p)\<rparr>\<lparr>rand_state := rng g\<rparr>) = Running status ?q"
    proof -
      have "16 \<le> length (buf g)" using step(3) by simp
      from wrapped_eq [OF this] R show ?thesis by simp
    qed
    have "finished (main_loop E (i + 1) n (print_breadcrumbs (i + 1) ?q))"
      by (rule "1.IH" [OF True refl refl step(1) refl g2 w "1.prems"])
    then show ?thesis
      by (simp add: step(4) R)
  qed
qed

lemma main_loop_defined: "main_loop E i n p \<noteq> Undefined_Behaviour e"
  using main_loop_result [of E i n p] by (auto simp: outcome_process_def)

lemma tail_fill_zero:
  assumes "0 \<le> i" and "i \<le> 64" and "length (buf s) = 64" and "rng s = sconst 0"
  shows "\<exists>s'. tail_fill i s = Inr s'
     \<and> buf s' = take (nat i) (buf s) @ replicate (64 - nat i) 0"
  using assms
proof (induction i s rule: tail_fill.induct)
  case (1 i s)
  show ?case
  proof (cases "i < 64")
    case False
    with "1.prems" have "i = 64" by simp
    with "1.prems" show ?thesis by (simp add: tail_fill.simps [of 64])
  next
    case True
    define s1 where "s1 = s\<lparr>rng := stl (rng s)\<rparr>"
    define s2 where "s2 = stored (nat i) 0 s1"
    have rs: "rand s = (0, s1)" using "1.prems" by (simp add: rand_def s1_def)
    have lt: "nat i < length (buf s1)" using True "1.prems" by (simp add: s1_def)
    have st: "store (nat i) (word_of_nat (0 AND 0xFF)) s1 = Inr s2"
      using lt by (simp add: store_def stored_def s2_def)
    have "rng s2 = stl (rng s)" by (simp add: s2_def s1_def)
    also have "\<dots> = stl (sconst 0)" by (simp only: "1.prems"(4))
    also have "\<dots> = sconst 0" by simp
    finally have r2: "rng s2 = sconst 0" .
    have "0 \<le> i + 1" "i + 1 \<le> 64" "length (buf s2) = 64"
      using True "1.prems"(1,2,3) by (simp_all add: s2_def s1_def)
    note p2 = this r2
    from "1.IH" [OF True rs [symmetric] refl st p2]
    obtain s' where *: "tail_fill (i + 1) s2 = Inr s'"
      "buf s' = take (nat (i + 1)) (buf s2) @ replicate (64 - nat (i + 1)) 0"
      by blast
    have suc: "nat (i + 1) = Suc (nat i)" using "1.prems" by simp
    have b2: "buf s2 = (buf s)[nat i := 0]" by (simp add: s2_def s1_def stored_def)
    have lt': "nat i < length (buf s)" using lt by (simp add: s1_def)
    have "take (Suc (nat i)) ((buf s)[nat i := 0]) = take (nat i) (buf s) @ [0]"
      using lt' by (simp add: take_Suc_conv_app_nth)
    moreover have "64 - nat i = Suc (64 - Suc (nat i))" using True "1.prems" by simp
    ultimately have "buf s' = take (nat i) (buf s) @ replicate (64 - nat i) 0"
      unfolding *(2) suc b2 by (simp add: replicate_app_Cons_same)
    moreover have "tail_fill i s = Inr s'"
      using True rs st * by (simp add: tail_fill.simps [of i s])
    ultimately show ?thesis by blast
  qed
qed

lemma example_instruction:
  "\<exists>g. generate_rand_instr True
      \<lparr>buf = replicate 64 0, rng = 102 ## 43 ## sconst 0, stores = []\<rparr> = Inr g
     \<and> buf g = 0x4F # replicate 63 0"
proof -
  let ?s1 = "\<lparr>buf = replicate 64 (0::byte), rng = 43 ## sconst 0, stores = []\<rparr>"
  let ?s2 = "stored 0 0x4F (?s1\<lparr>rng := sconst 0\<rparr>)"
  have "num_prefixes_of (int 102) = 1"
    unfolding num_prefixes_of_nat by simp
  then have n: "num_prefixes_of 102 = 1" by simp
  have p: "generate_prefix_bytes 0 1 True ?s1 = Inr ?s2"
    by (simp add: generate_prefix_bytes_def prefix_loop.simps [of _ _ 0 1]
        prefix_loop.simps [of _ _ 1 1] rand_def store_def stored_def prefix_collection_def)
  have e: "escape_sequence (nat 1, ?s2) = Inr (1, ?s2)"
    by (simp add: escape_sequence_def rand_def escape_case_0 stored_def)
  from tail_fill_zero [of 1 ?s2]
  obtain g where g: "tail_fill 1 ?s2 = Inr g"
    "buf g = take (nat 1) (buf ?s2) @ replicate (64 - nat 1) 0"
    by (auto simp: stored_def)
  have "(64::nat) = Suc 63" by simp
  then have rep: "replicate 64 (0::byte) = 0 # replicate 63 0"
    by (simp only: replicate_Suc)
  have "buf g = 0x4F # replicate 63 0"
    unfolding g(2) by (simp add: stored_def rep)
  moreover have "generate_rand_instr True
      \<lparr>buf = replicate 64 0, rng = 102 ## 43 ## sconst 0, stores = []\<rparr> = Inr g"
    using p e g(1) by (simp add: generate_rand_instr_def rand_def n)
  ultimately show ?thesis by blast
qed

section \<open>Properties of the generator\<close>

text \<open>
  Claim C2. Called with the 64-bit flag false, the prefix byte generator writes no REX
  byte: for every count \<open>n\<close> that fits the destination (the encoder asks for at most
  15 bytes of a buffer of 64) and every state of the random source, the call succeeds,
  stores exactly \<open>n\<close> bytes, at \<open>dst, \<dots>, dst + n - 1\<close>, and none of the bytes stored
  lies in \<open>0x40..0x4F\<close>. The index drawn is below 28, so the sixteen REX entries at
  the end of the table cannot be chosen at all.
\<close>

theorem legacy_prefix_bytes_exclude_rex:
  assumes "dst + nat n \<le> length (buf s)"
  shows "\<exists>s' new. generate_prefix_bytes dst n False s = Inr s' \<and> stores s' = stores s @ new
     \<and> map fst new = map (\<lambda>j. dst + j) [0..<nat n]
     \<and> list_all (\<lambda>v. v \<notin> {0x40..0x4F}) (map snd new)"
proof -
  from prefix_loop_effect [of 0 dst n s "length prefix_collection - 16"] assms
  obtain s' new where *: "prefix_loop (length prefix_collection - 16) dst 0 n s = Inr s'"
    "stores s' = stores s @ new" "map fst new = map (\<lambda>j. dst + j) [0..<nat n]"
    "set (map snd new) \<subseteq> (\<lambda>r. prefix_collection ! (r mod (length prefix_collection - 16))) ` UNIV"
    by auto
  have "list_all (\<lambda>v. v \<notin> {0x40..0x4F}) (map snd new)"
    unfolding list_all_iff using *(4) legacy_prefixes_not_rex by blast
  with * show ?thesis
    by (simp add: generate_prefix_bytes_def)
qed

theorem legacy_prefix_bytes_exclude_rex_witness:
  "0 + nat 15 \<le> length (buf (fresh_state (sconst 5)))
   \<and> (\<exists>s' new. generate_prefix_bytes 0 15 False
          (fresh_state (sconst 5)) = Inr s'
     \<and> stores s' = stores (fresh_state (sconst 5)) @ new
     \<and> map fst new = map (\<lambda>j. 0 + j) [0..<nat 15]
     \<and> list_all (\<lambda>v. v \<notin> {0x40..0x4F}) (map snd new))"
proof -
  let ?s = "fresh_state (sconst 5)"
  have h: "0 + nat 15 \<le> length (buf ?s)" by (simp add: fresh_state_def)
  from h legacy_prefix_bytes_exclude_rex [OF h] show ?thesis by (rule conjI)
qed

text \<open>
  Claim C3. One call of the encoder on a buffer of 64 bytes, with an empty log of
  stores, succeeds (no store goes outside of the buffer), and its stores go to the
  indices \<open>0, 1, \<dots>, 63\<close>, each exactly once; the buffer then holds the bytes stored.
  The prefix count of the draw lies between 0 and 15. This holds for every state of the
  random source and both values of the 64-bit flag.
\<close>

theorem generate_rand_instr_writes_each_byte_once:
  assumes "length (buf s) = 64" and "stores s = []"
  shows "\<exists>s'. generate_rand_instr is_64bit s = Inr s' \<and> length (buf s') = 64
     \<and> map fst (stores s') = [0..<64] \<and> map snd (stores s') = buf s'
     \<and> 0 \<le> num_prefixes_of (int (shd (rng s) mod 254))
     \<and> num_prefixes_of (int (shd (rng s) mod 254)) \<le> 15"
proof -
  from generate_rand_instr_written [OF assms, of is_64bit]
  obtain s' where s': "generate_rand_instr is_64bit s = Inr s'" "length (buf s') = 64"
    "written_upto 64 s'" by blast
  from written_upto_all [OF s'(3) s'(2)] s' num_prefixes_bound [of "shd (rng s)"]
  show ?thesis by simp
qed

theorem generate_rand_instr_writes_each_byte_once_witness:
  "length (buf (fresh_state (sconst 253))) = 64
   \<and> stores (fresh_state (sconst 253)) = []
   \<and> (\<exists>s'. generate_rand_instr True (fresh_state (sconst 253))
          = Inr s' \<and> length (buf s') = 64
     \<and> map fst (stores s') = [0..<64] \<and> map snd (stores s') = buf s'
     \<and> 0 \<le> num_prefixes_of
           (int (shd (rng (fresh_state (sconst 253))) mod 254))
     \<and> num_prefixes_of
           (int (shd (rng (fresh_state (sconst 253))) mod 254))
         \<le> 15)"
proof -
  let ?s = "fresh_state (sconst 253)"
  have h1: "length (buf ?s) = 64" by (simp add: fresh_state_def)
  have h2: "stores ?s = []" by (simp add: fresh_state_def)
  from generate_rand_instr_writes_each_byte_once [OF h1 h2, of True] h1 h2
  show ?thesis by blast
qed

text \<open>
  Claim C4. Among the 254 draws \<open>r = 0, \<dots>, 253\<close>, the number of draws with prefix
  count \<open>(r*r*r) >> 20 = k\<close> is, for \<open>k = 0, \<dots>, 15\<close>: 102, 26, 19, 15, 12, 11, 10, 9,
  8, 7, 7, 7, 6, 6, 6, 3. The numbers never increase with \<open>k\<close>, they account for all
  254 draws, and more than half of the draws give a count of 0, 1 or 2.
\<close>

theorem prefix_count_mass_nonincreasing:
  "map prefix_count_mass [0..<16] = [102, 26, 19, 15, 12, 11, 10, 9, 8, 7, 7, 7, 6, 6, 6, 3]
  \<and> sorted_wrt (\<ge>) (map prefix_count_mass [0..<16])
  \<and> sum_list (map prefix_count_mass [0..<16]) = 254
  \<and> 254 < 2 * sum_list (map prefix_count_mass [0..<3])"
proof -
  have three: "map prefix_count_mass [0..<3] = take 3 (map prefix_count_mass [0..<16])"
    by (simp add: take_map)
  show ?thesis unfolding three masses by simp
qed

text \<open>
  Claim C5. The escape sequence is chosen by one draw, \<^verbatim>\<open>rand() % 50\<close>, which lies in
  \<open>0..49\<close>. Of these fifty values, one each gives no escape, \<open>0F 0F\<close>, \<open>0F 38\<close>,
  \<open>0F 3A\<close> and \<open>0F\<close>; six each give EVEX, VEX3 and VEX2; the remaining 27 give XOP.
  Each value gives exactly one class, and the sequence written has 0 to 3 bytes (given
  room for three bytes at the cursor, which the encoder always has).
\<close>

theorem escape_selector_partition:
  assumes "k + 3 \<le> length (buf s)"
  shows "escape_sequence (k, s) = escape_case (shd (rng s) mod 50) (k, s\<lparr>rng := stl (rng s)\<rparr>)
    \<and> shd (rng s) mod 50 \<in> set [0..<50]
    \<and> map (\<lambda>sel. Option.bind (escape_bytes sel k s) escape_class_of) [0..<50] =
        [Some No_Escape, Some Escape_0F0F, Some Escape_0F38, Some Escape_0F3A, Some Escape_0F]
        @ replicate 6 (Some EVEX) @ replicate 6 (Some VEX3) @ replicate 6 (Some VEX2)
        @ replicate 27 (Some XOP)
    \<and> map (\<lambda>sel. map_option length (escape_bytes sel k s)) [0..<50] =
        [Some 0, Some 2, Some 2, Some 2, Some 1]
        @ replicate 6 (Some 3) @ replicate 6 (Some 3) @ replicate 6 (Some 2)
        @ replicate 27 (Some 3)"
proof -
  have "escape_sequence (k, s) = escape_case (shd (rng s) mod 50) (k, s\<lparr>rng := stl (rng s)\<rparr>)"
    by (simp add: escape_sequence_def rand_eq)
  moreover have "shd (rng s) mod 50 \<in> set [0..<50]"
    by simp
  moreover have "map (\<lambda>sel. Option.bind (escape_bytes sel k s) escape_class_of) [0..<50] =
        [Some No_Escape, Some Escape_0F0F, Some Escape_0F38, Some Escape_0F3A, Some Escape_0F]
        @ replicate 6 (Some EVEX) @ replicate 6 (Some VEX3) @ replicate 6 (Some VEX2)
        @ replicate 27 (Some XOP)"
    by (rule escape_class_map [OF assms])
  moreover have "map (\<lambda>sel. map_option length (escape_bytes sel k s)) [0..<50] =
        [Some 0, Some 2, Some 2, Some 2, Some 1]
        @ replicate 6 (Some 3) @ replicate 6 (Some 3) @ replicate 6 (Some 2)
        @ replicate 27 (Some 3)"
    by (rule escape_length_map [OF assms])
  ultimately show ?thesis by blast
qed

theorem escape_selector_partition_witness:
  "0 + 3 \<le> length (buf (fresh_state (sconst 7)))
   \<and> escape_sequence (0, (fresh_state (sconst 7))) = escape_case (shd (rng (fresh_state (sconst 7))) mod 50) (0, (fresh_state (sconst 7))\<lparr>rng := stl (rng (fresh_state (sconst 7)))\<rparr>)
    \<and> shd (rng (fresh_state (sconst 7))) mod 50 \<in> set [0..<50]
    \<and> map (\<lambda>sel. Option.bind (escape_bytes sel 0 (fresh_state (sconst 7))) escape_class_of) [0..<50] =
        [Some No_Escape, Some Escape_0F0F, Some Escape_0F38, Some Escape_0F3A, Some Escape_0F]
        @ replicate 6 (Some EVEX) @ replicate 6 (Some VEX3) @ replicate 6 (Some VEX2)
        @ replicate 27 (Some XOP)
    \<and> map (\<lambda>sel. map_option length (escape_bytes sel 0 (fresh_state (sconst 7)))) [0..<50] =
        [Some 0, Some 2, Some 2, Some 2, Some 1]
        @ replicate 6 (Some 3) @ replicate 6 (Some 3) @ replicate 6 (Some 2)
        @ replicate 27 (Some 3)"
proof -
  let ?s = "fresh_state (sconst 7)"
  have h: "0 + 3 \<le> length (buf ?s)" by (simp add: fresh_state_def)
  from h escape_selector_partition [OF h] show ?thesis by (rule conjI)
qed

text \<open>
  Claim C6, as the source has it. For EVEX, VEX3 and XOP the second byte is the low byte
  of the first random word, masked (with \<open>0xF7\<close> for EVEX, \<open>0xE3\<close> for VEX3 and XOP)
  exactly when bits 8 and 9 of that word are not both zero, and left as it is otherwise;
  XOP then flips bit 3. The third byte is the low byte of a second random word, with
  \<open>0x78\<close> OR-ed into it exactly when bits 8 and 9 of that second word are zero: the first
  word plays no part. VEX2 draws one word and has no map-selector byte: its second byte
  is the low byte of that word, with \<open>0x78\<close> OR-ed into it exactly when bits 8 and 9 of
  the word are zero.
\<close>

theorem biased_fields_follow_their_own_word:
  assumes "k + 3 \<le> length (buf s)"
    and "(rv1 :: 32 word) = word_of_nat (shd (rng s))"
    and "(rv2 :: 32 word) = word_of_nat (shd (stl (rng s)))"
  shows "list_all (\<lambda>sel. escape_bytes sel k s = Some
            [0x62,
             if rv1 AND 0x300 \<noteq> 0 then ucast (rv1 AND 0xF7) else ucast rv1,
             if rv2 AND 0x300 = 0 then ucast (rv2 OR 0x78) else ucast rv2]) [5..<11]
    \<and> list_all (\<lambda>sel. escape_bytes sel k s = Some
            [0xC4,
             if rv1 AND 0x300 \<noteq> 0 then ucast (rv1 AND 0xE3) else ucast rv1,
             if rv2 AND 0x300 = 0 then ucast (rv2 OR 0x78) else ucast rv2]) [11..<17]
    \<and> list_all (\<lambda>sel. escape_bytes sel k s = Some
            [0xC5,
             if rv1 AND 0x300 = 0 then ucast (rv1 OR 0x78) else ucast rv1]) [17..<23]
    \<and> list_all (\<lambda>sel. escape_bytes sel k s = Some
            [0x8F,
             (if rv1 AND 0x300 \<noteq> 0 then ucast (rv1 AND 0xE3) else ucast rv1) XOR 8,
             if rv2 AND 0x300 = 0 then ucast (rv2 OR 0x78) else ucast rv2]) [23..<50]"
proof -
  note b = escape_bytes_sel [OF assms(1)] masked_field_byte forced_field_byte ucast_xor_8
    assms(2,3) [symmetric]
  have "list_all (\<lambda>sel. escape_bytes sel k s = Some
            [0x62,
             if rv1 AND 0x300 \<noteq> 0 then ucast (rv1 AND 0xF7) else ucast rv1,
             if rv2 AND 0x300 = 0 then ucast (rv2 OR 0x78) else ucast rv2]) [5..<11]"
    unfolding list_all_iff by (auto simp: b)
  moreover have "list_all (\<lambda>sel. escape_bytes sel k s = Some
            [0xC4,
             if rv1 AND 0x300 \<noteq> 0 then ucast (rv1 AND 0xE3) else ucast rv1,
             if rv2 AND 0x300 = 0 then ucast (rv2 OR 0x78) else ucast rv2]) [11..<17]"
    unfolding list_all_iff by (auto simp: b)
  moreover have "list_all (\<lambda>sel. escape_bytes sel k s = Some
            [0xC5,
             if rv1 AND 0x300 = 0 then ucast (rv1 OR 0x78) else ucast rv1]) [17..<23]"
    unfolding list_all_iff by (auto simp: b)
  moreover have "list_all (\<lambda>sel. escape_bytes sel k s = Some
            [0x8F,
             (if rv1 AND 0x300 \<noteq> 0 then ucast (rv1 AND 0xE3) else ucast rv1) XOR 8,
             if rv2 AND 0x300 = 0 then ucast (rv2 OR 0x78) else ucast rv2]) [23..<50]"
    unfolding list_all_iff by (auto simp: b)
  ultimately show ?thesis by blast
qed

theorem biased_fields_follow_their_own_word_witness:
  "0 + 3 \<le> length (buf (fresh_state (0x1F5 ## 0xAB ## sconst 0)))
   \<and> (0x1F5 :: 32 word) = word_of_nat (shd (rng (fresh_state (0x1F5 ## 0xAB ## sconst 0))))
   \<and> (0xAB :: 32 word) = word_of_nat (shd (stl (rng (fresh_state (0x1F5 ## 0xAB ## sconst 0)))))
   \<and> list_all (\<lambda>sel. escape_bytes sel 0 (fresh_state (0x1F5 ## 0xAB ## sconst 0)) = Some
            [0x62,
             if (0x1F5 :: 32 word) AND 0x300 \<noteq> 0 then ucast ((0x1F5 :: 32 word) AND 0xF7) else ucast (0x1F5 :: 32 word),
             if (0xAB :: 32 word) AND 0x300 = 0 then ucast ((0xAB :: 32 word) OR 0x78) else ucast (0xAB :: 32 word)]) [5..<11]
    \<and> list_all (\<lambda>sel. escape_bytes sel 0 (fresh_state (0x1F5 ## 0xAB ## sconst 0)) = Some
            [0xC4,
             if (0x1F5 :: 32 word) AND 0x300 \<noteq> 0 then ucast ((0x1F5 :: 32 word) AND 0xE3) else ucast (0x1F5 :: 32 word),
             if (0xAB :: 32 word) AND 0x300 = 0 then ucast ((0xAB :: 32 word) OR 0x78) else ucast (0xAB :: 32 word)]) [11..<17]
    \<and> list_all (\<lambda>sel. escape_bytes sel 0 (fresh_state (0x1F5 ## 0xAB ## sconst 0)) = Some
            [0xC5,
             if (0x1F5 :: 32 word) AND 0x300 = 0 then ucast ((0x1F5 :: 32 word) OR 0x78) else ucast (0x1F5 :: 32 word)]) [17..<23]
    \<and> list_all (\<lambda>sel. escape_bytes sel 0 (fresh_state (0x1F5 ## 0xAB ## sconst 0)) = Some
            [0x8F,
             (if (0x1F5 :: 32 word) AND 0x300 \<noteq> 0 then ucast ((0x1F5 :: 32 word) AND 0xE3) else ucast (0x1F5 :: 32 word)) XOR 8,
             if (0xAB :: 32 word) AND 0x300 = 0 then ucast ((0xAB :: 32 word) OR 0x78) else ucast (0xAB :: 32 word)]) [23..<50]"
proof -
  let ?s = "fresh_state (0x1F5 ## 0xAB ## sconst 0)"
  have h1: "0 + 3 \<le> length (buf ?s)" by (simp add: fresh_state_def)
  have h2: "(0x1F5 :: 32 word) = word_of_nat (shd (rng ?s))" by (simp add: fresh_state_def)
  have h3: "(0xAB :: 32 word) = word_of_nat (shd (stl (rng ?s)))" by (simp add: fresh_state_def)
  from h1 h2 h3 biased_fields_follow_their_own_word [OF h1 h2 h3] show ?thesis by blast
qed

text \<open>
  The claim C6 as it was stated ties the forcing of \<open>0x78\<close> to the first random word.
  With the first word 0 (bits 8 and 9 zero) and the second word \<open>0x300\<close>, the EVEX
  sequence is \<open>62 00 00\<close>: the third byte does not carry \<open>0x78\<close>.
\<close>

theorem forcing_ignores_first_word_counterexample:
  "(word_of_nat (shd (rng (fresh_state (0 ## 0x300 ## sconst 0))))
      :: 32 word) AND 0x300 = 0
   \<and> escape_bytes 5 0 (fresh_state (0 ## 0x300 ## sconst 0))
       = Some [0x62, 0x00, 0x00]
   \<and> (0x00 :: byte) AND 0x78 \<noteq> 0x78"
  by (simp add: escape_bytes_sel masked_field_def forced_field_def fresh_state_def)

section \<open>Properties of the fault handler\<close>




section \<open>Properties of the wrapper and of the main loop\<close>



text \<open>
  Claim C8. Two runs with the same seed argument and the same number of iterations,
  whatever the decoder returns or does in each and whatever the uninitialised buffer
  holds in each, submit the same decoder objects and the same buffers in the same order,
  as far as both get: the sequence of one run is an initial part of that of the other.
  If both runs finish, the sequences are equal and have one entry for each iteration.
\<close>

theorem same_seed_same_candidates:
  assumes "E2 = E1\<lparr>ZydisDecoderDecodeBuffer := decoder2, stack_bytes := stack2\<rparr>"
  shows "(prefix (submissions (main_with_limit E1 n args)) (submissions (main_with_limit E2 n args))
       \<or> prefix (submissions (main_with_limit E2 n args)) (submissions (main_with_limit E1 n args)))
    \<and> (finished (main_with_limit E1 n args) \<and> finished (main_with_limit E2 n args)
         \<longrightarrow> submissions (main_with_limit E1 n args) = submissions (main_with_limit E2 n args)
           \<and> length (submissions (main_with_limit E1 n args)) = nat n)"
proof -
  have dec: "decoder_object E2 = decoder_object E1"
    by (rule ext) (simp add: assms decoder_object_def split: decoder_var.split)
  have seed: "srand E2 = srand E1" "atoi E2 = atoi E1"
    by (simp_all add: assms)
  let ?p = "initial_process (srand E1 (case args of [] \<Rightarrow> 0 | a # _ \<Rightarrow> atoi E1 a))"
  have m1: "main_with_limit E1 n args = main_loop E1 0 n ?p"
    by (simp add: main_with_limit_def)
  have m2: "main_with_limit E2 n args = main_loop E2 0 n ?p"
    by (simp add: main_with_limit_def seed cong: list.case_cong)
  from main_loop_result [of E1 0 n ?p]
  obtain q where r: "outcome_process (main_loop E1 0 n ?p) = Some q"
    "finished (main_loop E1 0 n ?p)
       \<longrightarrow> length (submissions_of q) = length (submissions_of ?p) + nat (n - 0)"
    by blast
  have "submissions_of ?p = []"
    by (simp add: submissions_of_def initial_process_def)
  with r have len: "finished (main_loop E1 0 n ?p)
      \<longrightarrow> length (submissions (main_loop E1 0 n ?p)) = nat n"
    by (simp add: submissions_def)
  from main_loop_two_runs [where ?p1.0 = ?p and ?p2.0 = ?p and i = 0 and n = n, OF dec refl refl]
    len
  show ?thesis unfolding m1 m2 by blast
qed

theorem same_seed_same_candidates_witness:
  "(example_environment (\<lambda>_ _ _ _. Returned 0))
      \<lparr>ZydisDecoderDecodeBuffer := (\<lambda>_ _ _ _. Returned 1), stack_bytes := (\<lambda>_ _. 0xFF)\<rparr>
    = (example_environment (\<lambda>_ _ _ _. Returned 0))
      \<lparr>ZydisDecoderDecodeBuffer := (\<lambda>_ _ _ _. Returned 1), stack_bytes := (\<lambda>_ _. 0xFF)\<rparr>
   \<and> finished (main (example_environment (\<lambda>_ _ _ _. Returned 0)) [''42''])
   \<and> finished (main ((example_environment (\<lambda>_ _ _ _. Returned 0))
        \<lparr>ZydisDecoderDecodeBuffer := (\<lambda>_ _ _ _. Returned 1), stack_bytes := (\<lambda>_ _. 0xFF)\<rparr>)
        [''42''])
   \<and> submissions (main (example_environment (\<lambda>_ _ _ _. Returned 0)) [''42''])
     = submissions (main ((example_environment (\<lambda>_ _ _ _. Returned 0))
        \<lparr>ZydisDecoderDecodeBuffer := (\<lambda>_ _ _ _. Returned 1), stack_bytes := (\<lambda>_ _. 0xFF)\<rparr>)
        [''42''])
   \<and> length (submissions (main (example_environment (\<lambda>_ _ _ _. Returned 0)) [''42'']))
     = nat 2000000000"
proof -
  let ?E1 = "example_environment (\<lambda>_ _ _ _. Returned 0)"
  let ?E2 = "?E1\<lparr>ZydisDecoderDecodeBuffer := (\<lambda>_ _ _ _. Returned 1), stack_bytes := (\<lambda>_ _. 0xFF)\<rparr>"
  have f1: "finished (main_with_limit ?E1 2000000000 [''42''])"
    unfolding main_with_limit_def
    by (rule main_loop_finishes) (simp add: example_environment_def)
  have f2: "finished (main_with_limit ?E2 2000000000 [''42''])"
    unfolding main_with_limit_def
    by (rule main_loop_finishes) (simp add: example_environment_def)
  have e: "?E2 = ?E1\<lparr>ZydisDecoderDecodeBuffer := (\<lambda>_ _ _ _. Returned 1),
      stack_bytes := (\<lambda>_ _. 0xFF)\<rparr>" by (rule refl)
  from same_seed_same_candidates [OF e, of 2000000000 "[''42'']"] f1 f2
  show ?thesis unfolding main_def by blast
qed

text \<open>
  Claim C9. In every iteration of the main loop, the value switched on, \<^verbatim>\<open>rand() & 3\<close>,
  is the draw modulo 4, and the switch selects a decoder: the loop never reads an unset
  \<^verbatim>\<open>bits\<close> or \<^verbatim>\<open>decoder_to_use\<close>. The encoder is called with the flag \<^verbatim>\<open>bits==64\<close>,
  which is true exactly when the selected decoder object is one of the two initialised
  for 64-bit mode, and the buffer it has filled is submitted to the selected decoder
  object. The four values 0, 1, 2, 3 select the four decoder objects, which are pairwise
  different, one value each. Among the draws \<open>0, \<dots>, 4m - 1\<close> each decoder object is
  selected by exactly \<open>m\<close>: a draw that is uniform over such a range selects each of the
  four with probability one quarter.
\<close>

theorem main_loop_selects_one_decoder:
  assumes "i < n"
  shows "(\<exists>bits v g.
        select_decoder (shd (rand_state p) AND 3) = Some (bits, v)
      \<and> (bits = 64) = (v = decoder_x86_64_intel \<or> v = decoder_x86_64_amd)
      \<and> (bits = 64) = (address_width (decoder_object E v) = ZYDIS_ADDRESS_WIDTH_64)
      \<and> generate_rand_instr (v = decoder_x86_64_intel \<or> v = decoder_x86_64_amd)
          \<lparr>buf = map (stack_bytes E i) [0..<64], rng = stl (rand_state p), stores = []\<rparr>
          = Inr g
      \<and> main_loop E i n p =
         (case ZydisDecoderDecodeBuffer E
                 (at_call E (decoder_object E v) (buf g) 64 (p\<lparr>rand_state := rng g\<rparr>))
                 (decoder_object E v) (buf g) 64 of
            Returned status \<Rightarrow>
              main_loop E (i + 1) n (print_breadcrumbs (i + 1)
                (at_call E (decoder_object E v) (buf g) 64 (p\<lparr>rand_state := rng g\<rparr>)))
          | Faulted sig \<Rightarrow>
              fault_outcome sig
                (at_call E (decoder_object E v) (buf g) 64 (p\<lparr>rand_state := rng g\<rparr>))))
    \<and> main_loop E i n p \<noteq> Undefined_Behaviour Uninitialised_Read
    \<and> shd (rand_state p) AND 3 = shd (rand_state p) mod 4
    \<and> map select_decoder [0, 1, 2, 3] =
        [Some (16, decoder_x86_16), Some (32, decoder_x86_32),
         Some (64, decoder_x86_64_intel), Some (64, decoder_x86_64_amd)]
    \<and> distinct (map (decoder_object E)
         [decoder_x86_16, decoder_x86_32, decoder_x86_64_intel, decoder_x86_64_amd])
    \<and> (\<forall>m w. selection_count w (4 * m) = m)"
proof -
  from main_loop_step [OF assms, of p E]
  obtain bits v g where step:
    "select_decoder (shd (rand_state p) AND 3) = Some (bits, v)"
    "generate_rand_instr (bits = 64)
      \<lparr>buf = map (stack_bytes E i) [0..<64], rng = stl (rand_state p), stores = []\<rparr> = Inr g"
    "main_loop E i n p =
     (case ZydisDecoderDecodeBuffer E
             (at_call E (decoder_object E v) (buf g) 64 (p\<lparr>rand_state := rng g\<rparr>))
             (decoder_object E v) (buf g) 64 of
        Returned status \<Rightarrow>
          main_loop E (i + 1) n (print_breadcrumbs (i + 1)
            (at_call E (decoder_object E v) (buf g) 64 (p\<lparr>rand_state := rng g\<rparr>)))
      | Faulted sig \<Rightarrow>
          fault_outcome sig
            (at_call E (decoder_object E v) (buf g) 64 (p\<lparr>rand_state := rng g\<rparr>)))"
    by blast
  note w = selected_width [OF step(1)]
  have "generate_rand_instr (v = decoder_x86_64_intel \<or> v = decoder_x86_64_amd)
      \<lparr>buf = map (stack_bytes E i) [0..<64], rng = stl (rand_state p), stores = []\<rparr> = Inr g"
    using step(2) unfolding w(1) .
  with step(1,3) w
  have first: "\<exists>bits v g.
        select_decoder (shd (rand_state p) AND 3) = Some (bits, v)
      \<and> (bits = 64) = (v = decoder_x86_64_intel \<or> v = decoder_x86_64_amd)
      \<and> (bits = 64) = (address_width (decoder_object E v) = ZYDIS_ADDRESS_WIDTH_64)
      \<and> generate_rand_instr (v = decoder_x86_64_intel \<or> v = decoder_x86_64_amd)
          \<lparr>buf = map (stack_bytes E i) [0..<64], rng = stl (rand_state p), stores = []\<rparr>
          = Inr g
      \<and> main_loop E i n p =
         (case ZydisDecoderDecodeBuffer E
                 (at_call E (decoder_object E v) (buf g) 64 (p\<lparr>rand_state := rng g\<rparr>))
                 (decoder_object E v) (buf g) 64 of
            Returned status \<Rightarrow>
              main_loop E (i + 1) n (print_breadcrumbs (i + 1)
                (at_call E (decoder_object E v) (buf g) 64 (p\<lparr>rand_state := rng g\<rparr>)))
          | Faulted sig \<Rightarrow>
              fault_outcome sig
                (at_call E (decoder_object E v) (buf g) 64 (p\<lparr>rand_state := rng g\<rparr>)))"
    by blast
  have "map select_decoder [0, 1, 2, 3] =
       [Some (16, decoder_x86_16), Some (32, decoder_x86_32),
        Some (64, decoder_x86_64_intel), Some (64, decoder_x86_64_amd)]"
    by (simp add: select_decoder_def)
  moreover have "distinct (map (decoder_object E)
        [decoder_x86_16, decoder_x86_32, decoder_x86_64_intel, decoder_x86_64_amd])"
    by (simp add: decoder_object_def ZydisDecoderInit_def ZydisDecoderEnableMode_def)
  ultimately show ?thesis
    using first main_loop_defined and_3_mod selection_count_quarter by blast
qed


theorem main_loop_selects_one_decoder_witness:
  "(0::int) < 1
   \<and> select_decoder (shd (rand_state example_start) AND 3) = Some (64, decoder_x86_64_intel)
   \<and> submissions (main_loop (example_environment (\<lambda>_ _ _ _. Returned 0)) 0 1 example_start)
       = [(decoder_object (example_environment (\<lambda>_ _ _ _. Returned 0)) decoder_x86_64_intel,
           0x4F # replicate 63 0)]
   \<and> selection_count decoder_x86_64_amd 8 = 2"
proof -
  let ?E = "example_environment (\<lambda>_ _ _ _. Returned 0)"
  have h: "(0::int) < 1" by simp
  have s: "select_decoder (shd (rand_state example_start) AND 3)
      = Some (64, decoder_x86_64_intel)"
    by (simp add: example_start_def initial_process_def select_decoder_def and_3_mod)
  have b: "map (stack_bytes ?E 0) [0..<64] = replicate 64 0"
    by (simp add: example_environment_def map_replicate_const)
  note T = main_loop_selects_one_decoder [OF h, of example_start ?E]
  from T obtain bits v g where step:
    "select_decoder (shd (rand_state example_start) AND 3) = Some (bits, v)"
    "generate_rand_instr (v = decoder_x86_64_intel \<or> v = decoder_x86_64_amd)
       \<lparr>buf = map (stack_bytes ?E 0) [0..<64], rng = stl (rand_state example_start),
         stores = []\<rparr> = Inr g"
    "main_loop ?E 0 1 example_start =
       (case ZydisDecoderDecodeBuffer ?E
               (at_call ?E (decoder_object ?E v) (buf g) 64
                 (example_start\<lparr>rand_state := rng g\<rparr>))
               (decoder_object ?E v) (buf g) 64 of
          Returned status \<Rightarrow>
            main_loop ?E (0 + 1) 1 (print_breadcrumbs (0 + 1)
              (at_call ?E (decoder_object ?E v) (buf g) 64
                (example_start\<lparr>rand_state := rng g\<rparr>)))
        | Faulted sig \<Rightarrow>
            fault_outcome sig
              (at_call ?E (decoder_object ?E v) (buf g) 64
                (example_start\<lparr>rand_state := rng g\<rparr>)))"
    by blast
  from step(1) s have v: "v = decoder_x86_64_intel" by simp
  have r: "stl (rand_state example_start) = 102 ## 43 ## sconst 0"
    by (simp add: example_start_def initial_process_def)
  from step(2) example_instruction have g: "buf g = 0x4F # replicate 63 0"
    unfolding v b r by auto
  have d: "ZydisDecoderDecodeBuffer ?E q dd bb l = Returned 0" for q dd bb l
    by (simp add: example_environment_def)
  have n: "submissions_of example_start = []"
    by (simp add: example_start_def initial_process_def submissions_of_def)
  have "submissions (main_loop ?E 0 1 example_start)
      = [(decoder_object ?E decoder_x86_64_intel, 0x4F # replicate 63 0)]"
    unfolding step(3) d v g
    by (simp add: main_loop_done n)
  moreover from T have "selection_count decoder_x86_64_amd (4 * 2) = 2" by blast
  ultimately show ?thesis using h s by simp
qed

end
